theory Spec2Isabelle
  imports Complex_Main "HOL-Library.Word" "HOL-Library.Signed_Division"
begin

section \<open>Machine integers and durations\<close>

text \<open>
  Go's \<open>int\<close> (on the 64-bit platforms the tool is built for) and \<open>int64\<close> are 64-bit
  two's-complement words: \<open>+\<close>, \<open>-\<close> wrap around, comparisons are signed.
  \<open>time.Duration\<close> is an \<open>int64\<close> count of nanoseconds.
\<close>

type_synonym goint = "64 word"
type_synonym duration = "64 word"
type_synonym bytes = "8 word list"

definition Millisecond :: duration where
  "Millisecond = 1000000"

definition Second :: duration where
  "Second = 1000000000"

text \<open>
  Integer division of Go truncates towards zero; the quotient of the most negative value
  by \<open>-1\<close> wraps around. Division by zero panics and is checked by the caller.
\<close>

definition int64_div :: "64 word \<Rightarrow> 64 word \<Rightarrow> 64 word" where
  "int64_div a b = word_of_int (sint a sdiv sint b)"

section \<open>Ways in which a run ends abnormally\<close>

text \<open>
  \<open>Fatal\<close> is \<open>log.Fatalf\<close>: the message is logged and the process exits with status 1.
  \<open>Panic\<close> is a run-time panic of the Go runtime, which also ends the process.
\<close>

datatype abort = Fatal string | Panic string

definition bind_res :: "abort + 'a \<Rightarrow> ('a \<Rightarrow> abort + 'b) \<Rightarrow> abort + 'b" where
  "bind_res r f = (case r of Inl a \<Rightarrow> Inl a | Inr v \<Rightarrow> f v)"

section \<open>float64 arithmetic\<close>

text \<open>
  A finite \<open>float64\<close> value is modelled by the real number it denotes. Every arithmetic
  operation of IEEE 754 binary64 returns the exact result rounded to the nearest
  representable number, ties to the even significand (\<open>fl\<close>): 53 bits of precision,
  gradual underflow below \<open>2 ^ -1022\<close>. Each operation is rounded on its own, as the
  gc compiler does on amd64, where it fuses no multiplication with an addition.
  The exponent is not bounded from above: no value computed by the functions below
  from 64-bit integers and the percentiles 25, 75, 95 and 99 comes near the largest
  finite binary64 number, and a rank beyond it is out of the range of the conversion
  to \<open>int\<close> in any case.
\<close>

type_synonym float64 = real

definition rne :: "real \<Rightarrow> int" where
  "rne y = (let f = \<lfloor>y\<rfloor>; d = y - of_int f
            in if d < 1 / 2 then f
               else if 1 / 2 < d then f + 1
               else if even f then f else f + 1)"

definition f64_exponent :: "real \<Rightarrow> int" where
  "f64_exponent x = max (\<lfloor>log 2 \<bar>x\<bar>\<rfloor> - 52) (- 1074)"

definition fl :: "real \<Rightarrow> float64" where
  "fl x = (if x = 0 then 0
           else of_int (rne (x / 2 powi f64_exponent x)) * 2 powi f64_exponent x)"

definition f64_of_int :: "int \<Rightarrow> float64" where
  "f64_of_int i = fl (of_int i)"

definition f64_add :: "float64 \<Rightarrow> float64 \<Rightarrow> float64" where
  "f64_add x y = fl (x + y)"

definition f64_sub :: "float64 \<Rightarrow> float64 \<Rightarrow> float64" where
  "f64_sub x y = fl (x - y)"

definition f64_mul :: "float64 \<Rightarrow> float64 \<Rightarrow> float64" where
  "f64_mul x y = fl (x * y)"

definition f64_div :: "float64 \<Rightarrow> float64 \<Rightarrow> float64" where
  "f64_div x y = fl (x / y)"

definition f64_sqrt :: "float64 \<Rightarrow> float64" where
  "f64_sqrt x = fl (sqrt x)"

text \<open>
  Conversion of a \<open>float64\<close> to \<open>int\<close>, \<open>int64\<close> or \<open>time.Duration\<close> discards the
  fraction (truncation towards zero). For a value outside the range of \<open>int64\<close> the Go
  specification leaves the result to the implementation; amd64 returns the most
  negative integer.
\<close>

definition trunc :: "real \<Rightarrow> int" where
  "trunc x = (if 0 \<le> x then \<lfloor>x\<rfloor> else \<lceil>x\<rceil>)"

definition f64_to_int64 :: "float64 \<Rightarrow> 64 word" where
  "f64_to_int64 x =
     (if - (2 ^ 63) \<le> x \<and> x < 2 ^ 63 then word_of_int (trunc x)
      else word_of_int (- (2 ^ 63)))"

section \<open>The statistics reducer\<close>

text \<open>
  \<open>calculateMean\<close>: the loop adds the samples in \<open>int64\<close>, the division by the length
  comes last. An empty slice makes the divisor zero, which panics.
\<close>

definition calculateMean :: "duration list \<Rightarrow> abort + duration" where
  "calculateMean durations =
     (let total = foldl (\<lambda>total d. total + d) 0 durations;
          n = (of_nat (length durations) :: 64 word)
      in if n = 0 then Inl (Panic ''runtime error: integer divide by zero'')
         else Inr (int64_div total n))"

definition calculateStdDev :: "duration list \<Rightarrow> duration \<Rightarrow> duration" where
  "calculateStdDev durations mean =
     (if length durations < 2 then 0
      else
        let sumSquares =
              foldl (\<lambda>sumSquares d.
                       let diff = f64_of_int (sint (d - mean))
                       in f64_add sumSquares (f64_mul diff diff))
                    0 durations;
            variance = f64_div sumSquares (f64_of_int (int (length durations) - 1))
        in f64_to_int64 (f64_sqrt variance))"

text \<open>
  \<open>calculatePercentile\<close>: \<open>lower\<close> and \<open>upper\<close> are \<open>int\<close>; indexing the slice with a
  negative \<open>lower\<close> panics.
\<close>

definition calculatePercentile :: "duration list \<Rightarrow> float64 \<Rightarrow> abort + duration" where
  "calculatePercentile sorted' percentile =
     (if length sorted' = 0 then Inr 0
      else if length sorted' = 1 then Inr (sorted' ! 0)
      else
        let rank = f64_mul (f64_div percentile 100) (f64_of_int (int (length sorted') - 1));
            lower = (f64_to_int64 rank :: goint);
            upper = lower + 1
        in if int (length sorted') \<le> sint upper then Inr (sorted' ! (length sorted' - 1))
           else
             let weight = f64_sub rank (f64_of_int (sint lower))
             in if sint lower < 0 \<or> int (length sorted') \<le> sint lower
                then Inl (Panic ''runtime error: index out of range'')
                else Inr (f64_to_int64
                            (f64_add (f64_mul (f64_of_int (sint (sorted' ! nat (sint lower))))
                                              (f64_sub 1 weight))
                                     (f64_mul (f64_of_int (sint (sorted' ! nat (sint upper))))
                                              weight))))"

text \<open>
  The two structs of the program. \<open>Durations\<close> holds the samples themselves in the
  model on values and a slice header in the model with a heap.
\<close>

record Config =
  StartCost :: goint
  EndCost :: goint
  Password :: string
  GenerateLength :: goint
  Iterations :: goint

record 'd CostResult =
  Cost :: goint
  Durations :: 'd
  Mean :: duration
  StdDev :: duration
  P25 :: duration
  P75 :: duration
  P95 :: duration
  P99 :: duration
  Iterations :: goint

text \<open>
  \<open>calculateStats\<close> on values: \<open>sorted\<close> is the ascending arrangement of a copy of the
  samples (\<open>slices.Sort\<close> orders \<open>int64\<close> by signed \<open><\<close>).
\<close>

definition calculateStats ::
  "goint \<Rightarrow> duration list \<Rightarrow> abort + duration list CostResult" where
  "calculateStats cost durations =
     (let sorted' = sort_key sint durations
      in bind_res (calculateMean sorted') (\<lambda>mean.
         let stdDev = calculateStdDev sorted' mean
         in bind_res (calculatePercentile sorted' 25) (\<lambda>p25.
            bind_res (calculatePercentile sorted' 75) (\<lambda>p75.
            bind_res (calculatePercentile sorted' 95) (\<lambda>p95.
            bind_res (calculatePercentile sorted' 99) (\<lambda>p99.
              Inr \<lparr>Cost = cost, Durations = durations, Mean = mean, StdDev = stdDev,
                   P25 = p25, P75 = p75, P95 = p95, P99 = p99,
                   Iterations = of_nat (length durations)\<rparr>))))))"

section \<open>The recommendation of the report\<close>

text \<open>The \<open>switch\<close> of \<open>printReport\<close>: the first case that holds gives the text.\<close>

definition recommendation :: "duration \<Rightarrow> string" where
  "recommendation mean =
     (if mean <s 100 * Millisecond then ''Fast - consider higher cost for sensitive data''
      else if mean <s 250 * Millisecond then ''Good - balanced security and performance''
      else if mean <s 500 * Millisecond then ''Acceptable - may impact UX under load''
      else if mean <s 1 * Second then ''Slow - may cause timeouts under load''
      else ''Too slow - not recommended for production'')"

section \<open>The statistics reducer on a heap\<close>

text \<open>
  To see what \<open>calculateStats\<close> does to the memory of its caller, slices are also
  modelled as Go has them: a heap of arrays, an address being the position of an array
  in the heap, and slice headers that point into an array. \<open>make\<close> appends a new
  zeroed array to the heap; \<open>copy\<close> and \<open>slices.Sort\<close> overwrite the elements the
  destination header points to.
\<close>

type_synonym heap = "duration list list"

record slice =
  array :: nat
  offset :: nat
  len :: nat
  cap :: nat

definition slice_ok :: "heap \<Rightarrow> slice \<Rightarrow> bool" where
  "slice_ok h s =
     (array s < length h \<and> len s \<le> cap s \<and> offset s + cap s \<le> length (h ! array s))"

definition elems :: "heap \<Rightarrow> slice \<Rightarrow> duration list" where
  "elems h s = take (len s) (drop (offset s) (h ! array s))"

definition make_slice :: "heap \<Rightarrow> nat \<Rightarrow> slice \<times> heap" where
  "make_slice h n = (\<lparr>array = length h, offset = 0, len = n, cap = n\<rparr>, h @ [replicate n 0])"

definition store_elems :: "heap \<Rightarrow> slice \<Rightarrow> duration list \<Rightarrow> heap" where
  "store_elems h s xs =
     h[array s := take (offset s) (h ! array s) @ xs
                  @ drop (offset s + length xs) (h ! array s)]"

definition copy_slice :: "heap \<Rightarrow> slice \<Rightarrow> slice \<Rightarrow> heap" where
  "copy_slice h dst src = store_elems h dst (take (min (len dst) (len src)) (elems h src))"

definition sort_slice :: "heap \<Rightarrow> slice \<Rightarrow> heap" where
  "sort_slice h s = store_elems h s (sort_key sint (elems h s))"

definition calculateStats_heap ::
  "goint \<Rightarrow> slice \<Rightarrow> heap \<Rightarrow> (abort + slice CostResult) \<times> heap" where
  "calculateStats_heap cost durations h =
     (let (sorted', h1) = make_slice h (len durations);
          h2 = copy_slice h1 sorted' durations;
          h3 = sort_slice h2 sorted';
          samples = elems h3 sorted'
      in (bind_res (calculateMean samples) (\<lambda>mean.
          let stdDev = calculateStdDev samples mean
          in bind_res (calculatePercentile samples 25) (\<lambda>p25.
             bind_res (calculatePercentile samples 75) (\<lambda>p75.
             bind_res (calculatePercentile samples 95) (\<lambda>p95.
             bind_res (calculatePercentile samples 99) (\<lambda>p99.
               Inr \<lparr>Cost = cost, Durations = durations, Mean = mean, StdDev = stdDev,
                    P25 = p25, P75 = p75, P95 = p95, P99 = p99,
                    Iterations = of_nat (len durations)\<rparr>))))), h3))"

section \<open>The sweep controller\<close>

text \<open>
  The hashing primitive and the clock are outside the program. \<open>hash k password cost\<close>
  is what the \<open>k\<close>-th timed call of \<open>bcrypt.GenerateFromPassword\<close> of a run does
  (counting from 0): the text of the error it returns, or the time \<open>time.Since\<close>
  measures for it. The loops pass the number of calls made so far along and return it
  with their result. A loop that never ends is the value \<open>None\<close>. The progress line
  written to the terminal and the spinner index it uses are left out, and so is the
  exhaustion of memory.

  \<open>make\<close> with a negative capacity panics. \<open>log.Fatalf\<close> ends the process at once:
  nothing of \<open>runBenchmark\<close> is returned.
\<close>

type_synonym hash_oracle = "nat \<Rightarrow> bytes \<Rightarrow> goint \<Rightarrow> string + duration"

definition hash_failure :: "string \<Rightarrow> abort" where
  "hash_failure err = Fatal (CHR 0x0A # ''Error generating hash: '' @ err)"

partial_function (option) iterLoop ::
  "hash_oracle \<Rightarrow> Config \<Rightarrow> bytes \<Rightarrow> goint \<Rightarrow> goint \<Rightarrow> duration list \<Rightarrow> nat
     \<Rightarrow> ((abort + duration list) \<times> nat) option" where
  "iterLoop hash cfg password cost iter durations k =
     (if iter \<le>s Config.Iterations cfg then
        (case hash k password cost of
           Inl err \<Rightarrow> Some (Inl (hash_failure err), Suc k)
         | Inr elapsed \<Rightarrow>
             iterLoop hash cfg password cost (iter + 1) (durations @ [elapsed]) (Suc k))
      else Some (Inr durations, k))"

partial_function (option) costLoop ::
  "hash_oracle \<Rightarrow> Config \<Rightarrow> bytes \<Rightarrow> goint \<Rightarrow> duration list CostResult list \<Rightarrow> nat
     \<Rightarrow> ((abort + duration list CostResult list) \<times> nat) option" where
  "costLoop hash cfg password cost results k =
     (if cost \<le>s EndCost cfg then
        (if Config.Iterations cfg <s 0
         then Some (Inl (Panic ''makeslice: cap out of range''), k)
         else
           (case iterLoop hash cfg password cost 1 [] k of
              None \<Rightarrow> None
            | Some (Inl a, k') \<Rightarrow> Some (Inl a, k')
            | Some (Inr durations, k') \<Rightarrow>
                (case calculateStats cost durations of
                   Inl a \<Rightarrow> Some (Inl a, k')
                 | Inr r \<Rightarrow> costLoop hash cfg password (cost + 1) (results @ [r]) k')))
      else Some (Inr results, k))"

definition runBenchmark ::
  "hash_oracle \<Rightarrow> Config \<Rightarrow> bytes
     \<Rightarrow> ((abort + duration list CostResult list) \<times> nat) option" where
  "runBenchmark hash cfg password =
     (if EndCost cfg - StartCost cfg + 1 <s 0
      then Some (Inl (Panic ''makeslice: cap out of range''), 0)
      else costLoop hash cfg password (StartCost cfg) [] 0)"

text \<open>
  The cost level at which the \<open>i\<close>-th call of a sweep is made: each level makes
  \<open>Iterations\<close> calls.
\<close>

definition cost_of_call :: "Config \<Rightarrow> nat \<Rightarrow> goint" where
  "cost_of_call cfg i = StartCost cfg + of_nat (i div nat (sint (Config.Iterations cfg)))"

text \<open>
  \<open>printReport\<close> writes one table row and one analysis line for each result, in
  order; the model keeps what each line is made from, not its layout. \<open>main\<close> after
  the flags are parsed and the password is chosen: the report is printed only when
  \<open>runBenchmark\<close> returns.
\<close>

definition printReport ::
  "duration list CostResult list \<Rightarrow> (duration list CostResult \<times> string) list" where
  "printReport results = map (\<lambda>r. (r, recommendation (Mean r))) results"

datatype run_end =
  Exited abort
  | Reported "(duration list CostResult \<times> string) list"

definition main_run :: "hash_oracle \<Rightarrow> Config \<Rightarrow> bytes \<Rightarrow> run_end option" where
  "main_run hash cfg password =
     (case runBenchmark hash cfg password of
        None \<Rightarrow> None
      | Some (Inl a, k) \<Rightarrow> Some (Exited a)
      | Some (Inr results, k) \<Rightarrow> Some (Reported (printReport results)))"

section \<open>The bands of the specification\<close>

text \<open>
  The specification names five bands of the mean, in nanoseconds here; \<open>band_text\<close> is
  the sentence the report prints for a band.
\<close>

datatype band = Fast | Balanced | Acceptable | Slow | TooSlow

definition band_of_mean :: "int \<Rightarrow> band" where
  "band_of_mean ns =
     (if ns < 100 * 1000000 then Fast
      else if ns < 250 * 1000000 then Balanced
      else if ns < 500 * 1000000 then Acceptable
      else if ns < 1000000000 then Slow
      else TooSlow)"

fun band_text :: "band \<Rightarrow> string" where
  "band_text Fast = ''Fast - consider higher cost for sensitive data''"
| "band_text Balanced = ''Good - balanced security and performance''"
| "band_text Acceptable = ''Acceptable - may impact UX under load''"
| "band_text Slow = ''Slow - may cause timeouts under load''"
| "band_text TooSlow = ''Too slow - not recommended for production''"

section \<open>The formulas of the specification\<close>

text \<open>
  The percentile and the standard deviation as the specification words them, evaluated
  in \<open>float64\<close> and converted to whole nanoseconds at the end: the rank
  \<open>r = (p / 100) * (n - 1)\<close>, \<open>lo = floor r\<close>, \<open>hi = lo + 1\<close>, \<open>w = r - lo\<close>, the largest
  sample when \<open>hi \<ge> n\<close> and \<open>sorted[lo] * (1 - w) + sorted[hi] * w\<close> otherwise, the single
  sample when there is one; and the square root of the sum of the squared deviations
  over \<open>n - 1\<close>, zero below two samples.
\<close>

definition percentile_spec :: "duration list \<Rightarrow> float64 \<Rightarrow> duration" where
  "percentile_spec xs p =
     (if length xs = 1 then xs ! 0
      else
        let r = f64_mul (f64_div p 100) (f64_of_int (int (length xs) - 1));
            lo = \<lfloor>r\<rfloor>;
            hi = lo + 1;
            w = f64_sub r (f64_of_int lo)
        in if int (length xs) \<le> hi then word_of_int (Max (sint ` set xs))
           else f64_to_int64
                  (f64_add (f64_mul (f64_of_int (sint (xs ! nat lo))) (f64_sub 1 w))
                           (f64_mul (f64_of_int (sint (xs ! nat hi))) w)))"

definition sum_squares_spec :: "duration list \<Rightarrow> duration \<Rightarrow> float64" where
  "sum_squares_spec xs mean =
     foldl f64_add 0
       (map (\<lambda>x. f64_mul (f64_of_int (sint (x - mean))) (f64_of_int (sint (x - mean)))) xs)"

definition stddev_spec :: "duration list \<Rightarrow> duration \<Rightarrow> duration" where
  "stddev_spec xs mean =
     (if length xs < 2 then 0
      else f64_to_int64
             (f64_sqrt (f64_div (sum_squares_spec xs mean)
                                (f64_of_int (int (length xs) - 1)))))"

section \<open>Inputs for the examples\<close>

text \<open>
  A sweep over the costs 4, 5 and 6 with two iterations each; a primitive that always
  takes a millisecond; and one whose sixth call (the second iteration of the third cost
  level) fails.
\<close>

definition cfg_4_6 :: Config where
  "cfg_4_6 = \<lparr>StartCost = 4, EndCost = 6, Password = ''secret'', GenerateLength = 0,
              Iterations = 2\<rparr>"

definition steady_hash :: hash_oracle where
  "steady_hash k password cost = Inr Millisecond"

definition failing_hash :: hash_oracle where
  "failing_hash k password cost = (if k = 5 then Inl ''boom'' else Inr Millisecond)"

text \<open>
  Samples of the examples of the specification; two samples of a little more than four
  days, one nanosecond apart; two samples whose sum leaves \<open>int64\<close>; and a heap with one
  array of three samples, with the slice of all of it.
\<close>

definition samples_10_20_30 :: "duration list" where
  "samples_10_20_30 = [10 * Millisecond, 20 * Millisecond, 30 * Millisecond]"

definition samples_10_to_40 :: "duration list" where
  "samples_10_to_40 = [10 * Millisecond, 20 * Millisecond, 30 * Millisecond, 40 * Millisecond]"



definition heap_3_1_2 :: heap where
  "heap_3_1_2 = [[3 * Millisecond, 1 * Millisecond, 2 * Millisecond]]"

definition whole_slice :: slice where
  "whole_slice = \<lparr>array = 0, offset = 0, len = 3, cap = 3\<rparr>"

section \<open>Representable numbers\<close>

text \<open>
  The finite binary64 numbers: an integer significand of at most 53 bits times a power
  of two not below \<open>2 ^ -1074\<close>.
\<close>

definition is_f64 :: "real \<Rightarrow> bool" where
  "is_f64 y = (\<exists>m e. y = of_int m * 2 powi e \<and> \<bar>m\<bar> \<le> 2 ^ 53 \<and> - 1074 \<le> e)"

section \<open>Rounding to binary64\<close>

text \<open>
  Rounding keeps the sign, never passes a representable number, and leaves a
  representable number as it is.
\<close>

lemma rne_le: "y \<le> of_int k \<Longrightarrow> rne y \<le> k"
  unfolding rne_def Let_def by (auto; linarith)

lemma rne_ge: "of_int k \<le> y \<Longrightarrow> k \<le> rne y"
  unfolding rne_def Let_def by (auto; linarith)

lemma rne_of_int: "rne (of_int k) = k"
  unfolding rne_def Let_def by simp

lemma fl_nonneg: "0 \<le> x \<Longrightarrow> 0 \<le> fl x"
  unfolding fl_def using rne_ge[of 0 "x / 2 powi f64_exponent x"] by (auto simp: zero_le_mult_iff)

lemma fl_nonpos: "x \<le> 0 \<Longrightarrow> fl x \<le> 0"
  unfolding fl_def using rne_le[of "x / 2 powi f64_exponent x" 0]
  by (auto simp: mult_le_0_iff divide_le_0_iff)

lemma f64_exponent_ge: "- 1074 \<le> f64_exponent x"
  by (simp add: f64_exponent_def)

lemma two_powi_floor_log_le:
  assumes "0 < x"
  shows "2 powi \<lfloor>log 2 x\<rfloor> \<le> x"
proof -
  have "2 powr (of_int \<lfloor>log 2 x\<rfloor>) \<le> 2 powr (log 2 x)"
    by (subst powr_le_cancel_iff) auto
  then show ?thesis using assms by (simp add: powr_real_of_int')
qed

lemma two_powi_le_iff: "(2::real) powi a \<le> 2 powi b \<longleftrightarrow> a \<le> b"
proof -
  have "(2::real) powi a = 2 powr (of_int a)" "(2::real) powi b = 2 powr (of_int b)"
    by (simp_all add: powr_real_of_int')
  then show ?thesis by simp
qed

lemma f64_exponent_normal:
  assumes "x \<noteq> 0" "f64_exponent x \<noteq> - 1074"
  shows "2 powi (f64_exponent x + 52) \<le> \<bar>x\<bar>"
proof -
  have "f64_exponent x = \<lfloor>log 2 \<bar>x\<bar>\<rfloor> - 52"
    using assms(2) by (simp add: f64_exponent_def max_def split: if_splits)
  then show ?thesis using two_powi_floor_log_le[of "\<bar>x\<bar>"] assms(1) by simp
qed

lemma on_grid:
  assumes "is_f64 y" "- 1074 \<le> c" "c = - 1074 \<or> 2 powi (c + 52) \<le> \<bar>y\<bar>"
  shows "\<exists>k. y = of_int k * 2 powi c"
proof -
  from assms(1) obtain m e where y: "y = of_int m * 2 powi e" and m: "\<bar>m\<bar> \<le> 2 ^ 53" and e: "- 1074 \<le> e"
    unfolding is_f64_def by blast
  show ?thesis
  proof (cases "c \<le> e")
    case True
    have "(2::real) powi e = 2 powi (e - c) * 2 powi c"
      by (simp add: power_int_add[symmetric])
    also have "(2::real) powi (e - c) = of_int (2 ^ nat (e - c))"
      using True by (simp add: power_int_nonneg_exp)
    finally have "y = of_int (m * 2 ^ nat (e - c)) * 2 powi c"
      using y by simp
    then show ?thesis by blast
  next
    case False
    then have c: "c \<noteq> - 1074" using e by linarith
    with assms(3) have big: "2 powi (c + 52) \<le> \<bar>y\<bar>" by blast
    have ay: "\<bar>y\<bar> = of_int \<bar>m\<bar> * 2 powi e" by (simp add: y abs_mult)
    have "real_of_int \<bar>m\<bar> \<le> real_of_int (2 ^ 53)"
      using m by (simp only: of_int_le_iff)
    then have "real_of_int \<bar>m\<bar> \<le> 2 ^ 53" by simp
    then have "\<bar>y\<bar> \<le> 2 ^ 53 * 2 powi e"
      unfolding ay by (intro mult_right_mono) auto
    also have "\<dots> = 2 powi (e + 53)"
      by (simp add: power_int_add)
    finally have "(2::real) powi (c + 52) \<le> 2 powi (e + 53)" using big by linarith
    then have "c + 52 \<le> e + 53" by (simp only: two_powi_le_iff)
    with False have ec: "e = c - 1" by linarith
    have "2 powi (c + 52) \<le> of_int \<bar>m\<bar> * (2::real) powi (c - 1)"
      using big ay ec by simp
    moreover have "(2::real) powi (c + 52) = 2 ^ 53 * 2 powi (c - 1)"
      using power_int_add[of "2::real" "c - 1" 53] by (simp add: add.commute mult.commute)
    ultimately have "(2::real) ^ 53 \<le> of_int \<bar>m\<bar>"
      by simp
    then have "2 ^ 53 \<le> \<bar>m\<bar>"
      by (metis of_int_le_iff of_int_numeral of_int_power)
    with m have am: "\<bar>m\<bar> = 2 ^ 53" by linarith
    have "(2::real) powi (c - 1) * 2 = 2 powi c"
      by (simp add: power_int_minus_mult)
    then have p: "2 ^ 53 * (2::real) powi (c - 1) = 2 ^ 52 * 2 powi c" by simp
    from am have "m = 2 ^ 53 \<or> m = - (2 ^ 53)" by linarith
    then show ?thesis
    proof
      assume "m = 2 ^ 53"
      then have "y = of_int (2 ^ 52) * 2 powi c" using y ec p by simp
      then show ?thesis by blast
    next
      assume "m = - (2 ^ 53)"
      then have "y = of_int (- (2 ^ 52)) * 2 powi c" using y ec p by simp
      then show ?thesis by blast
    qed
  qed
qed

lemma fl_le_f64:
  assumes xy: "x \<le> y" and y: "is_f64 y"
  shows "fl x \<le> y"
proof (cases "x = 0")
  case True
  then show ?thesis using xy by (simp add: fl_def)
next
  case x0: False
  define c where "c = f64_exponent x"
  have g: "0 < (2::real) powi c" by simp
  have flx: "fl x = of_int (rne (x / 2 powi c)) * 2 powi c"
    using x0 by (simp add: fl_def c_def)
  show ?thesis
  proof (cases "c = - 1074 \<or> 2 powi (c + 52) \<le> \<bar>y\<bar>")
    case True
    then obtain k where k: "y = of_int k * 2 powi c"
      using on_grid[OF y, of c] f64_exponent_ge[of x] c_def by auto
    have "x / 2 powi c \<le> of_int k"
      using xy k g by (simp add: field_simps)
    then have "rne (x / 2 powi c) \<le> k" by (rule rne_le)
    then have "of_int (rne (x / 2 powi c)) * 2 powi c \<le> of_int k * (2::real) powi c"
      using g by simp
    then show ?thesis using flx k by simp
  next
    case False
    then have cn: "c \<noteq> - 1074" and ysmall: "\<bar>y\<bar> < 2 powi (c + 52)" by auto
    have xbig: "2 powi (c + 52) \<le> \<bar>x\<bar>"
      using f64_exponent_normal[OF x0] cn c_def by simp
    have xneg: "x \<le> - (2 powi (c + 52))"
      using xbig ysmall xy by linarith
    have p: "(2::real) powi (c + 52) = 2 ^ 52 * 2 powi c"
      by (simp add: power_int_add)
    have "x / 2 powi c \<le> of_int (- (2 ^ 52))"
      using xneg g by (simp add: field_simps p)
    then have "rne (x / 2 powi c) \<le> - (2 ^ 52)" by (rule rne_le)
    then have "of_int (rne (x / 2 powi c)) * 2 powi c \<le> of_int (- (2 ^ 52)) * (2::real) powi c"
      using g by (simp del: of_int_minus of_int_power of_int_numeral)
    then have "fl x \<le> - (2 powi (c + 52))" using flx p by simp
    then show ?thesis using ysmall by linarith
  qed
qed

lemma f64_le_fl:
  assumes xy: "y \<le> x" and y: "is_f64 y"
  shows "y \<le> fl x"
proof (cases "x = 0")
  case True
  then show ?thesis using xy by (simp add: fl_def)
next
  case x0: False
  define c where "c = f64_exponent x"
  have g: "0 < (2::real) powi c" by simp
  have flx: "fl x = of_int (rne (x / 2 powi c)) * 2 powi c"
    using x0 by (simp add: fl_def c_def)
  show ?thesis
  proof (cases "c = - 1074 \<or> 2 powi (c + 52) \<le> \<bar>y\<bar>")
    case True
    then obtain k where k: "y = of_int k * 2 powi c"
      using on_grid[OF y, of c] f64_exponent_ge[of x] c_def by auto
    have "of_int k \<le> x / 2 powi c"
      using xy k g by (simp add: field_simps)
    then have "k \<le> rne (x / 2 powi c)" by (rule rne_ge)
    then have "of_int k * (2::real) powi c \<le> of_int (rne (x / 2 powi c)) * 2 powi c"
      using g by simp
    then show ?thesis using flx k by simp
  next
    case False
    then have cn: "c \<noteq> - 1074" and ysmall: "\<bar>y\<bar> < 2 powi (c + 52)" by auto
    have xbig: "2 powi (c + 52) \<le> \<bar>x\<bar>"
      using f64_exponent_normal[OF x0] cn c_def by simp
    have xpos: "2 powi (c + 52) \<le> x"
      using xbig ysmall xy by linarith
    have p: "(2::real) powi (c + 52) = 2 ^ 52 * 2 powi c"
      by (simp add: power_int_add)
    have "of_int (2 ^ 52) \<le> x / 2 powi c"
      using xpos g by (simp add: field_simps p)
    then have "2 ^ 52 \<le> rne (x / 2 powi c)" by (rule rne_ge)
    then have "of_int (2 ^ 52) * (2::real) powi c \<le> of_int (rne (x / 2 powi c)) * 2 powi c"
      using g by (simp del: of_int_power of_int_numeral)
    then have "2 powi (c + 52) \<le> fl x" using flx p by simp
    then show ?thesis using ysmall by linarith
  qed
qed

lemma fl_f64: "is_f64 y \<Longrightarrow> fl y = y"
  using fl_le_f64[of y y] f64_le_fl[of y y] by simp

lemma is_f64_of_int: "\<bar>m\<bar> \<le> 2 ^ 53 \<Longrightarrow> is_f64 (of_int m)"
  unfolding is_f64_def by (rule exI[of _ m], rule exI[of _ 0]) simp

lemma is_f64_dyadic: "\<bar>m\<bar> \<le> 2 ^ 53 \<Longrightarrow> - 1074 \<le> e \<Longrightarrow> is_f64 (of_int m * 2 powi e)"
  unfolding is_f64_def by blast

section \<open>Words and conversions\<close>

lemma is_f64_0: "is_f64 0" using is_f64_of_int[of 0] by simp
lemma is_f64_1: "is_f64 1" using is_f64_of_int[of 1] by simp
lemma is_f64_2p63: "is_f64 (2 ^ 63)" using is_f64_dyadic[of "2 ^ 53" 10] by simp
lemma is_f64_127_128: "is_f64 (127 / 128)" using is_f64_dyadic[of 127 "- 7"] by simp
lemma is_f64_top: "is_f64 (127 * 2 ^ 56)" using is_f64_dyadic[of 127 56] by simp

lemma rank_bounds:
  assumes p: "0 \<le> p" "p \<le> 99" and n: "0 \<le> n" "n < 2 ^ 63"
  shows "0 \<le> f64_mul (f64_div p 100) (f64_of_int n)"
    and "f64_mul (f64_div p 100) (f64_of_int n) \<le> 127 * 2 ^ 56"
proof -
  have q0: "0 \<le> f64_div p 100" unfolding f64_div_def using p by (intro fl_nonneg) simp
  have q1: "f64_div p 100 \<le> 127 / 128" unfolding f64_div_def
    using p by (intro fl_le_f64 is_f64_127_128) simp
  have n0: "0 \<le> f64_of_int n" unfolding f64_of_int_def using n by (intro fl_nonneg) simp
  have "real_of_int n \<le> 2 ^ 63" using n(2)
    by (metis less_le_not_le of_int_le_iff of_int_numeral of_int_power linear)
  then have n1: "f64_of_int n \<le> 2 ^ 63" unfolding f64_of_int_def
    by (intro fl_le_f64 is_f64_2p63)
  show "0 \<le> f64_mul (f64_div p 100) (f64_of_int n)"
    unfolding f64_mul_def using q0 n0 by (intro fl_nonneg) simp
  have "f64_div p 100 * f64_of_int n \<le> 127 / 128 * 2 ^ 63"
    using q0 q1 n0 n1 by (intro mult_mono) auto
  then show "f64_mul (f64_div p 100) (f64_of_int n) \<le> 127 * 2 ^ 56"
    unfolding f64_mul_def by (intro fl_le_f64 is_f64_top) simp
qed

lemma sint_word_of_int_64:
  "- (2 ^ 63) \<le> k \<Longrightarrow> k < 2 ^ 63 \<Longrightarrow> sint (word_of_int k :: 64 word) = k"
  by (simp add: sint_sbintrunc' signed_take_bit_int_eq_self)

lemma sint_of_nat_64: "n < 2 ^ 63 \<Longrightarrow> sint (of_nat n :: 64 word) = int n"
  using sint_word_of_int_64[of "int n"] by simp

lemma sint_add_64:
  assumes "- (2 ^ 63) \<le> sint a + sint b" "sint a + sint b < 2 ^ 63"
  shows "sint (a + b :: 64 word) = sint a + sint b"
proof -
  have "a + b = word_of_int (sint a + sint b)" by simp
  then show ?thesis using sint_word_of_int_64[OF assms] by simp
qed

lemma sint_sub_64:
  assumes "- (2 ^ 63) \<le> sint a - sint b" "sint a - sint b < 2 ^ 63"
  shows "sint (a - b :: 64 word) = sint a - sint b"
proof -
  have "a - b = word_of_int (sint a - sint b)" by simp
  then show ?thesis using sint_word_of_int_64[OF assms] by simp
qed

lemma sint_bounds_64: "- (2 ^ 63) \<le> sint (w :: 64 word)" "sint (w :: 64 word) < 2 ^ 63"
  using sint_ge[of w] sint_lt[of w] by simp_all

lemma trunc_nonneg: "0 \<le> x \<Longrightarrow> trunc x = \<lfloor>x\<rfloor>"
  by (simp add: trunc_def)

lemma f64_to_int64_nonneg:
  assumes "0 \<le> x" "x < 2 ^ 63"
  shows "sint (f64_to_int64 x) = \<lfloor>x\<rfloor>"
proof -
  have "0 \<le> \<lfloor>x\<rfloor>" using assms(1) by simp
  moreover have "\<lfloor>x\<rfloor> < 2 ^ 63" using assms(2) by (simp add: floor_less_iff)
  ultimately show ?thesis
    using assms by (simp add: f64_to_int64_def trunc_nonneg sint_word_of_int_64)
qed

lemma calculatePercentile_no_panic:
  assumes p: "0 \<le> p" "p \<le> 99" and n: "length xs < 2 ^ 63"
  shows "\<exists>d. calculatePercentile xs p = Inr d"
proof -
  define rank where "rank = f64_mul (f64_div p 100) (f64_of_int (int (length xs) - 1))"
  define lower where "lower = f64_to_int64 rank"
  show ?thesis
  proof (cases "length xs < 2")
    case True
    then have "length xs = 0 \<or> length xs = 1" by linarith
    then show ?thesis by (auto simp: calculatePercentile_def)
  next
    case False
    then have n1: "0 \<le> int (length xs) - 1" "int (length xs) - 1 < 2 ^ 63"
      using n by (cases xs; simp)+
    have r: "0 \<le> rank" "rank \<le> 127 * 2 ^ 56"
      unfolding rank_def using rank_bounds[OF p n1] by simp_all
    then have lo: "sint lower = \<lfloor>rank\<rfloor>"
      unfolding lower_def by (intro f64_to_int64_nonneg) simp_all
    have lo0: "0 \<le> sint lower" using lo r by simp
    have "\<lfloor>rank\<rfloor> \<le> 127 * 2 ^ 56" using r(2) by (simp add: floor_le_iff)
    then have up: "sint (lower + 1) = sint lower + 1"
      using lo lo0 sint_add_64[of lower 1] by simp
    show ?thesis
      using False lo0 up
      by (simp add: calculatePercentile_def Let_def rank_def[symmetric] lower_def[symmetric])
  qed
qed

section \<open>The reducer returns\<close>

text \<open>
  For at least one sample, and fewer than \<open>2 ^ 63\<close>, no step of \<open>calculateStats\<close>
  panics.
\<close>

lemma calculateMean_ok:
  assumes "0 < length ds" "length ds < 2 ^ 64"
  shows "\<exists>m. calculateMean ds = Inr m"
proof -
  have "(of_nat (length ds) :: 64 word) \<noteq> 0"
    using assms by (intro of_nat_neq_0) simp_all
  then show ?thesis by (simp add: calculateMean_def Let_def)
qed

lemma bind_res_Inr [simp]: "bind_res (Inr v) f = f v"
  by (simp add: bind_res_def)

lemma bind_res_Inl [simp]: "bind_res (Inl a) f = Inl a"
  by (simp add: bind_res_def)

lemma calculateStats_ok:
  assumes "0 < length ds" "length ds < 2 ^ 63"
  shows "\<exists>r. calculateStats c ds = Inr r \<and> Cost r = c \<and> Durations r = ds
             \<and> CostResult.Iterations r = of_nat (length ds)"
proof -
  define xs where "xs = sort_key sint ds"
  have len: "length xs = length ds" by (simp add: xs_def)
  have "length ds < 2 ^ 64" using assms(2) by (rule less_trans) simp
  then obtain m where m: "calculateMean xs = Inr m"
    using calculateMean_ok[of xs] assms(1) len by auto
  obtain a where a: "calculatePercentile xs 25 = Inr a"
    using calculatePercentile_no_panic[of 25 xs] assms(2) len by auto
  obtain b where b: "calculatePercentile xs 75 = Inr b"
    using calculatePercentile_no_panic[of 75 xs] assms(2) len by auto
  obtain c' where c': "calculatePercentile xs 95 = Inr c'"
    using calculatePercentile_no_panic[of 95 xs] assms(2) len by auto
  obtain d where d: "calculatePercentile xs 99 = Inr d"
    using calculatePercentile_no_panic[of 99 xs] assms(2) len by auto
  show ?thesis
    by (simp add: calculateStats_def Let_def xs_def[symmetric] m a b c' d)
qed

lemma calculateStats_Inr:
  assumes "calculateStats c ds = Inr r"
  shows "Cost r = c \<and> Durations r = ds \<and> CostResult.Iterations r = of_nat (length ds)"
  using assms
  by (auto simp: calculateStats_def Let_def bind_res_def split: sum.splits)

section \<open>The loops of the sweep\<close>

lemma word_sle_sint: "(a \<le>s b) = (sint a \<le> sint b)"
  by (simp add: word_sle_eq)

lemma iterLoop_ok:
  assumes "sint (Config.Iterations cfg) < 2 ^ 63 - 1"
    and "int m = sint (Config.Iterations cfg) + 1 - sint iter"
    and "\<forall>j. k \<le> j \<and> j < k + m \<longrightarrow> (\<exists>d. hash j pw cost = Inr d)"
  shows "iterLoop hash cfg pw cost iter durs k =
           Some (Inr (durs @ map (\<lambda>j. projr (hash j pw cost)) [k..<k + m]), k + m)"
  using assms(2,3)
proof (induction m arbitrary: iter durs k)
  case 0
  then have "\<not> iter \<le>s Config.Iterations cfg" by (simp add: word_sle_sint)
  then show ?case by (subst iterLoop.simps) simp
next
  case (Suc m)
  have le: "iter \<le>s Config.Iterations cfg" using Suc.prems(1) by (simp add: word_sle_sint)
  obtain d where d: "hash k pw cost = Inr d" using Suc.prems(2) by force
  have s: "sint (iter + 1) = sint iter + 1"
    using sint_add_64[of iter 1] sint_bounds_64[of iter] Suc.prems(1) assms(1) by simp
  have "iterLoop hash cfg pw cost (iter + 1) (durs @ [d]) (Suc k) =
          Some (Inr ((durs @ [d]) @ map (\<lambda>j. projr (hash j pw cost)) [Suc k..<Suc k + m]),
                Suc k + m)"
    using Suc.prems by (intro Suc.IH) (auto simp: s)
  moreover have "[k..<k + Suc m] = k # [Suc k..<Suc k + m]"
    by (simp add: upt_conv_Cons)
  ultimately show ?case
    using le d by (subst iterLoop.simps) simp
qed

lemma iterLoop_fail:
  assumes "sint iter + int (j - k) \<le> sint (Config.Iterations cfg)" "k \<le> j"
    and "\<forall>i. k \<le> i \<and> i < j \<longrightarrow> (\<exists>d. hash i pw cost = Inr d)"
    and "hash j pw cost = Inl err"
  shows "iterLoop hash cfg pw cost iter durs k = Some (Inl (hash_failure err), Suc j)"
  using assms(1,2,3)
proof (induction "j - k" arbitrary: iter durs k)
  case 0
  then have "k = j" by simp
  moreover have "iter \<le>s Config.Iterations cfg" using 0 by (simp add: word_sle_sint)
  ultimately show ?case using assms(4) by (subst iterLoop.simps) simp
next
  case (Suc n)
  then have kj: "k < j" by linarith
  have le: "iter \<le>s Config.Iterations cfg" using Suc.prems(1) by (simp add: word_sle_sint)
  obtain d where d: "hash k pw cost = Inr d" using Suc.prems(3) kj by force
  have "sint iter + 1 \<le> sint (Config.Iterations cfg)" using Suc.prems(1) kj by linarith
  then have s: "sint (iter + 1) = sint iter + 1"
    using sint_add_64[of iter 1] sint_bounds_64[of iter]
      sint_bounds_64[of "Config.Iterations cfg"] by simp
  have "iterLoop hash cfg pw cost (iter + 1) (durs @ [d]) (Suc k) =
          Some (Inl (hash_failure err), Suc j)"
  proof (rule Suc.hyps(1))
    show "n = j - Suc k" using Suc.hyps(2) by simp
    show "sint (iter + 1) + int (j - Suc k) \<le> sint (Config.Iterations cfg)"
      using Suc.prems(1) kj by (simp add: s)
    show "Suc k \<le> j" using kj by simp
    show "\<forall>i. Suc k \<le> i \<and> i < j \<longrightarrow> (\<exists>d. hash i pw cost = Inr d)"
      using Suc.prems(3) by simp
  qed
  then show ?case using le d by (subst iterLoop.simps) simp
qed

lemma iterLoop_never_returns:
  assumes "iterLoop hash cfg pw cost iter durs k = Some y"
  shows "sint (Config.Iterations cfg) = 2 ^ 63 - 1 \<longrightarrow> (\<forall>ds k'. y \<noteq> (Inr ds, k'))"
proof (rule iterLoop.raw_induct[where P = "\<lambda>hash cfg pw cost iter durs k y.
         sint (Config.Iterations cfg) = 2 ^ 63 - 1 \<longrightarrow> (\<forall>ds k'. y \<noteq> (Inr ds, k'))", OF _ assms])
  fix f and hash :: hash_oracle and cfg :: Config and pw cost iter durs k and y
  assume IH: "\<And>hash cfg pw cost iter durs k y. f hash cfg pw cost iter durs k = Some y \<Longrightarrow>
         sint (Config.Iterations cfg) = 2 ^ 63 - 1 \<longrightarrow> (\<forall>ds k'. y \<noteq> (Inr ds, k'))"
    and eq: "(if iter \<le>s Config.Iterations cfg then
        (case hash k pw cost of
           Inl err \<Rightarrow> Some (Inl (hash_failure err), Suc k)
         | Inr elapsed \<Rightarrow> f hash cfg pw cost (iter + 1) (durs @ [elapsed]) (Suc k))
      else Some (Inr durs, k)) = Some y"
  show "sint (Config.Iterations cfg) = 2 ^ 63 - 1 \<longrightarrow> (\<forall>ds k'. y \<noteq> (Inr ds, k'))"
  proof
    assume top: "sint (Config.Iterations cfg) = 2 ^ 63 - 1"
    have "iter \<le>s Config.Iterations cfg"
      using sint_bounds_64[of iter] top by (simp add: word_sle_sint)
    with eq have "(case hash k pw cost of
           Inl err \<Rightarrow> Some (Inl (hash_failure err), Suc k)
         | Inr elapsed \<Rightarrow> f hash cfg pw cost (iter + 1) (durs @ [elapsed]) (Suc k)) = Some y"
      by simp
    then show "\<forall>ds k'. y \<noteq> (Inr ds, k')"
      using IH top by (auto split: sum.splits)
  qed
qed

lemma iterLoop_length:
  assumes run: "iterLoop hash cfg pw cost 1 [] k = Some (Inr ds, k')"
    and I0: "0 \<le> sint (Config.Iterations cfg)"
  shows "int (length ds) = sint (Config.Iterations cfg)"
proof (cases "sint (Config.Iterations cfg) = 2 ^ 63 - 1")
  case True
  then show ?thesis using iterLoop_never_returns[OF run] by simp
next
  case False
  then have I1: "sint (Config.Iterations cfg) < 2 ^ 63 - 1"
    using sint_bounds_64[of "Config.Iterations cfg"] by simp
  define m where "m = nat (sint (Config.Iterations cfg))"
  have m: "int m = sint (Config.Iterations cfg) + 1 - sint (1 :: 64 word)"
    using I0 by (simp add: m_def)
  show ?thesis
  proof (cases "\<forall>j. k \<le> j \<and> j < k + m \<longrightarrow> (\<exists>d. hash j pw cost = Inr d)")
    case True
    from iterLoop_ok[where cfg = cfg and m = m and iter = 1 and k = k and hash = hash
          and pw = pw and cost = cost and durs = "[]", OF I1 m True] run
    have "length ds = m" by auto
    then show ?thesis using I0 by (simp add: m_def)
  next
    case False
    define j where "j = (LEAST j. k \<le> j \<and> j < k + m \<and> \<not> (\<exists>d. hash j pw cost = Inr d))"
    from False have ex: "\<exists>j. k \<le> j \<and> j < k + m \<and> \<not> (\<exists>d. hash j pw cost = Inr d)" by blast
    have j: "k \<le> j" "j < k + m" "\<not> (\<exists>d. hash j pw cost = Inr d)"
      using LeastI_ex[OF ex] unfolding j_def by blast+
    have before: "\<forall>i. k \<le> i \<and> i < j \<longrightarrow> (\<exists>d. hash i pw cost = Inr d)"
    proof (intro allI impI)
      fix i assume i: "k \<le> i \<and> i < j"
      then have "\<not> (k \<le> i \<and> i < k + m \<and> \<not> (\<exists>d. hash i pw cost = Inr d))"
        using not_less_Least[of i "\<lambda>j. k \<le> j \<and> j < k + m \<and> \<not> (\<exists>d. hash j pw cost = Inr d)"]
        unfolding j_def by blast
      then show "\<exists>d. hash i pw cost = Inr d" using i j(2) by auto
    qed
    obtain err where err: "hash j pw cost = Inl err"
      using j(3) by (cases "hash j pw cost") auto
    have "sint (1 :: 64 word) + int (j - k) \<le> sint (Config.Iterations cfg)"
      using j(1,2) I0 by (simp add: m_def)
    from iterLoop_fail[where cfg = cfg and iter = 1 and k = k and j = j and hash = hash
          and pw = pw and cost = cost and durs = "[]" and err = err, OF this j(1) before err] run
    show ?thesis by simp
  qed
qed

lemma of_nat_nat_sint: "0 \<le> sint (w :: 64 word) \<Longrightarrow> of_nat (nat (sint w)) = w"
proof -
  assume a: "0 \<le> sint w"
  have "(of_nat (nat (sint w)) :: 64 word) = word_of_int (int (nat (sint w)))"
    by (simp only: of_int_of_nat_eq)
  also have "\<dots> = word_of_int (sint w)" using a by (simp only: int_nat_eq if_True)
  also have "\<dots> = w" by simp
  finally show ?thesis .
qed

lemma word_sless_sint: "(a <s b) = (sint a < sint b)"
  by (simp add: word_sless_alt)

lemma costLoop_ok:
  assumes I: "1 \<le> sint (Config.Iterations cfg)" "sint (Config.Iterations cfg) < 2 ^ 63 - 1"
    and E: "sint (EndCost cfg) < 2 ^ 63 - 1"
    and L: "int L = sint (EndCost cfg) + 1 - sint cost"
    and ok: "\<forall>j c. \<exists>d. hash j pw c = Inr d"
  shows "\<exists>new k'. costLoop hash cfg pw cost rs k = Some (Inr (rs @ new), k')
           \<and> map Cost new = map word_of_int [sint cost..sint (EndCost cfg)]
           \<and> (\<forall>r\<in>set new. CostResult.Iterations r = Config.Iterations cfg
                  \<and> int (length (Durations r)) = sint (Config.Iterations cfg))"
  using L
proof (induction L arbitrary: cost rs k)
  case 0
  then have "\<not> cost \<le>s EndCost cfg" by (simp add: word_sle_sint)
  then have "costLoop hash cfg pw cost rs k = Some (Inr (rs @ []), k)"
    by (subst costLoop.simps) simp
  moreover have "[sint cost..sint (EndCost cfg)] = []" using 0 by simp
  ultimately show ?case by auto
next
  case (Suc L)
  define m where "m = nat (sint (Config.Iterations cfg))"
  have m: "int m = sint (Config.Iterations cfg) + 1 - sint (1 :: 64 word)"
    using I by (simp add: m_def)
  have le: "cost \<le>s EndCost cfg" using Suc.prems by (simp add: word_sle_sint)
  have nn: "\<not> Config.Iterations cfg <s 0" using I by (simp add: word_sless_sint)
  define ds where "ds = map (\<lambda>j. projr (hash j pw cost)) [k..<k + m]"
  have it: "iterLoop hash cfg pw cost 1 [] k = Some (Inr ds, k + m)"
    using iterLoop_ok[where cfg = cfg and m = m and iter = 1 and k = k and hash = hash
          and pw = pw and cost = cost and durs = "[]", OF I(2) m] ok
    by (simp add: ds_def)
  have lds: "length ds = m" by (simp add: ds_def)
  have "0 < length ds" "length ds < 2 ^ 63"
    using I lds sint_bounds_64[of "Config.Iterations cfg"] by (simp_all add: m_def)
  then obtain r where r: "calculateStats cost ds = Inr r" "Cost r = cost" "Durations r = ds"
      "CostResult.Iterations r = of_nat (length ds)"
    using calculateStats_ok[of ds cost] by blast
  have rI: "CostResult.Iterations r = Config.Iterations cfg"
    using r(4) lds I by (simp add: m_def of_nat_nat_sint)
  have s: "sint (cost + 1) = sint cost + 1"
    using sint_add_64[of cost 1] sint_bounds_64[of cost] Suc.prems E by simp
  have "int L = sint (EndCost cfg) + 1 - sint (cost + 1)" using Suc.prems s by simp
  from Suc.IH[OF this, of "rs @ [r]" "k + m"] obtain new k' where
    new: "costLoop hash cfg pw (cost + 1) (rs @ [r]) (k + m) = Some (Inr ((rs @ [r]) @ new), k')"
      "map Cost new = map word_of_int [sint (cost + 1)..sint (EndCost cfg)]"
      "\<forall>r\<in>set new. CostResult.Iterations r = Config.Iterations cfg
          \<and> int (length (Durations r)) = sint (Config.Iterations cfg)"
    by blast
  have run: "costLoop hash cfg pw cost rs k = Some (Inr (rs @ r # new), k')"
    using le nn it r(1) new(1) by (subst costLoop.simps) simp
  have "sint cost \<le> sint (EndCost cfg)" using Suc.prems by linarith
  then have "[sint cost..sint (EndCost cfg)] = sint cost # [sint cost + 1..sint (EndCost cfg)]"
    by (rule upto_rec1)
  then have "map Cost (r # new) = map word_of_int [sint cost..sint (EndCost cfg)]"
    using new(2) r(2) s by simp
  moreover have "\<forall>r\<in>set (r # new). CostResult.Iterations r = Config.Iterations cfg
          \<and> int (length (Durations r)) = sint (Config.Iterations cfg)"
    using new(3) rI r(3) lds I by (simp add: m_def)
  ultimately show ?case using run by blast
qed

lemma costLoop_fail:
  assumes I: "1 \<le> sint (Config.Iterations cfg)" "sint (Config.Iterations cfg) < 2 ^ 63 - 1"
    and m: "m = nat (sint (Config.Iterations cfg))"
    and L: "int L = sint (EndCost cfg) + 1 - sint cost"
    and j: "k \<le> j" "(j - k) div m < L"
    and before: "\<forall>i. k \<le> i \<and> i < j \<longrightarrow> (\<exists>d. hash i pw (cost + of_nat ((i - k) div m)) = Inr d)"
    and fails: "hash j pw (cost + of_nat ((j - k) div m)) = Inl err"
  shows "costLoop hash cfg pw cost rs k = Some (Inl (hash_failure err), Suc j)"
  using L j before fails
proof (induction "(j - k) div m" arbitrary: cost rs k L)
  case 0
  have m0: "0 < m" using I m by simp
  have jk: "j - k < m" using 0(1) m0 by (simp add: div_eq_0_iff)
  have le: "cost \<le>s EndCost cfg" using 0(2,4) by (simp add: word_sle_sint)
  have nn: "\<not> Config.Iterations cfg <s 0" using I by (simp add: word_sless_sint)
  have b: "\<forall>i. k \<le> i \<and> i < j \<longrightarrow> (\<exists>d. hash i pw cost = Inr d)"
  proof (intro allI impI)
    fix i assume i: "k \<le> i \<and> i < j"
    then have "i - k < m" using jk by linarith
    then have "(i - k) div m = 0" by simp
    then show "\<exists>d. hash i pw cost = Inr d" using 0(5) i by force
  qed
  have f: "hash j pw cost = Inl err" using 0(6) 0(1)[symmetric] by simp
  have "sint (1 :: 64 word) + int (j - k) \<le> sint (Config.Iterations cfg)"
    using jk m I by simp
  from iterLoop_fail[where cfg = cfg and iter = 1 and k = k and j = j and hash = hash
          and pw = pw and cost = cost and durs = "[]" and err = err, OF this 0(3) b f]
  show ?case using le nn by (subst costLoop.simps) simp
next
  case (Suc l)
  have m0: "0 < m" using I m by simp
  have jk: "m \<le> j - k"
  proof (rule ccontr)
    assume "\<not> m \<le> j - k"
    then have "(j - k) div m = 0" by simp
    then show False using Suc.hyps(2) by simp
  qed
  have L2: "2 \<le> L" using Suc.hyps(2) Suc.prems(3) by linarith
  have le: "cost \<le>s EndCost cfg" using Suc.prems(1) L2 by (simp add: word_sle_sint)
  have nn: "\<not> Config.Iterations cfg <s 0" using I by (simp add: word_sless_sint)
  have mm: "int m = sint (Config.Iterations cfg) + 1 - sint (1 :: 64 word)"
    using I m by simp
  have b0: "\<forall>i. k \<le> i \<and> i < k + m \<longrightarrow> (\<exists>d. hash i pw cost = Inr d)"
  proof (intro allI impI)
    fix i assume i: "k \<le> i \<and> i < k + m"
    then have "i - k < m" by linarith
    then have "(i - k) div m = 0" by simp
    moreover have "i < j" using i jk by linarith
    ultimately show "\<exists>d. hash i pw cost = Inr d" using Suc.prems(4) i by force
  qed
  define ds where "ds = map (\<lambda>j. projr (hash j pw cost)) [k..<k + m]"
  have it: "iterLoop hash cfg pw cost 1 [] k = Some (Inr ds, k + m)"
    using iterLoop_ok[where cfg = cfg and m = m and iter = 1 and k = k and hash = hash
          and pw = pw and cost = cost and durs = "[]", OF I(2) mm b0]
    by (simp add: ds_def)
  have "0 < length ds" "length ds < 2 ^ 63"
    using I m sint_bounds_64[of "Config.Iterations cfg"] by (simp_all add: ds_def)
  then obtain r where r: "calculateStats cost ds = Inr r"
    using calculateStats_ok[of ds cost] by blast
  have s: "sint (cost + 1) = sint cost + 1"
    using sint_add_64[of cost 1] sint_bounds_64[of cost] sint_bounds_64[of "EndCost cfg"]
      Suc.prems(1) L2 by simp
  have d1: "\<And>i. k + m \<le> i \<Longrightarrow> (i - k) div m = Suc ((i - (k + m)) div m)"
  proof -
    fix i assume "k + m \<le> i"
    then have e: "i - k = (i - (k + m)) + m" by linarith
    have "((i - (k + m)) + m) div m = Suc ((i - (k + m)) div m)" using m0 by simp
    then show "(i - k) div m = Suc ((i - (k + m)) div m)" by (simp only: e[symmetric])
  qed
  have kmj: "k + m \<le> j" using jk Suc.prems(2) by linarith
  have dj: "(j - k) div m = Suc ((j - (k + m)) div m)" using d1[OF kmj] .
  have "costLoop hash cfg pw (cost + 1) (rs @ [r]) (k + m) = Some (Inl (hash_failure err), Suc j)"
  proof (rule Suc.hyps(1))
    show "l = (j - (k + m)) div m" using dj Suc.hyps(2) by linarith
    show "int (L - 1) = sint (EndCost cfg) + 1 - sint (cost + 1)"
      using Suc.prems(1) L2 s by linarith
    show "k + m \<le> j" by (rule kmj)
    show "(j - (k + m)) div m < L - 1"
      using dj Suc.prems(3) by linarith
    show "\<forall>i. k + m \<le> i \<and> i < j \<longrightarrow>
              (\<exists>d. hash i pw (cost + 1 + of_nat ((i - (k + m)) div m)) = Inr d)"
    proof (intro allI impI)
      fix i assume i: "k + m \<le> i \<and> i < j"
      then have "k \<le> i \<and> i < j" by linarith
      then have "\<exists>d. hash i pw (cost + of_nat ((i - k) div m)) = Inr d"
        using Suc.prems(4) by blast
      moreover have "(i - k) div m = Suc ((i - (k + m)) div m)" using d1[of i] i by blast
      moreover have "cost + of_nat (Suc ((i - (k + m)) div m))
                       = cost + 1 + of_nat ((i - (k + m)) div m)"
        by simp
      ultimately show "\<exists>d. hash i pw (cost + 1 + of_nat ((i - (k + m)) div m)) = Inr d"
        by (simp only:)
    qed
    have "cost + of_nat (Suc ((j - (k + m)) div m)) = cost + 1 + of_nat ((j - (k + m)) div m)"
      by simp
    then show "hash j pw (cost + 1 + of_nat ((j - (k + m)) div m)) = Inl err"
      using Suc.prems(5) dj by (simp only:)
  qed
  then show ?case using le nn it r by (subst costLoop.simps) simp
qed

lemma costLoop_results:
  assumes "costLoop hash cfg pw cost rs k = Some y"
  shows "\<forall>out k'. y = (Inr out, k') \<longrightarrow>
           (\<exists>new. out = rs @ new \<and>
              (\<forall>r\<in>set new. CostResult.Iterations r = Config.Iterations cfg
                  \<and> int (length (Durations r)) = sint (Config.Iterations cfg)))"
proof (rule costLoop.raw_induct[where P = "\<lambda>hash cfg pw cost rs k y.
         \<forall>out k'. y = (Inr out, k') \<longrightarrow>
           (\<exists>new. out = rs @ new \<and>
              (\<forall>r\<in>set new. CostResult.Iterations r = Config.Iterations cfg
                  \<and> int (length (Durations r)) = sint (Config.Iterations cfg)))", OF _ assms])
  fix f and hash :: hash_oracle and cfg :: Config and pw cost
    and rs :: "duration list CostResult list" and k y
  assume IH: "\<And>hash cfg pw cost rs k y. f hash cfg pw cost rs k = Some y \<Longrightarrow>
         \<forall>out k'. y = (Inr out, k') \<longrightarrow>
           (\<exists>new. out = rs @ new \<and>
              (\<forall>r\<in>set new. CostResult.Iterations r = Config.Iterations cfg
                  \<and> int (length (Durations r)) = sint (Config.Iterations cfg)))"
    and eq: "(if cost \<le>s EndCost cfg then
        (if Config.Iterations cfg <s 0
         then Some (Inl (Panic ''makeslice: cap out of range''), k)
         else
           (case iterLoop hash cfg pw cost 1 [] k of
              None \<Rightarrow> None
            | Some (Inl a, k') \<Rightarrow> Some (Inl a, k')
            | Some (Inr durations, k') \<Rightarrow>
                (case calculateStats cost durations of
                   Inl a \<Rightarrow> Some (Inl a, k')
                 | Inr r \<Rightarrow> f hash cfg pw (cost + 1) (rs @ [r]) k')))
      else Some (Inr rs, k)) = Some y"
  show "\<forall>out k'. y = (Inr out, k') \<longrightarrow>
           (\<exists>new. out = rs @ new \<and>
              (\<forall>r\<in>set new. CostResult.Iterations r = Config.Iterations cfg
                  \<and> int (length (Durations r)) = sint (Config.Iterations cfg)))"
  proof (intro allI impI)
    fix out k' assume y: "y = (Inr out, k')"
    show "\<exists>new. out = rs @ new \<and>
              (\<forall>r\<in>set new. CostResult.Iterations r = Config.Iterations cfg
                  \<and> int (length (Durations r)) = sint (Config.Iterations cfg))"
    proof (cases "cost \<le>s EndCost cfg")
      case False
      then have "out = rs" using eq y by simp
      then show ?thesis by simp
    next
      case True
      show ?thesis
      proof (cases "Config.Iterations cfg <s 0")
        case True
        then show ?thesis using eq y \<open>cost \<le>s EndCost cfg\<close> by simp
      next
        case False
        then have I0: "0 \<le> sint (Config.Iterations cfg)" by (simp add: word_sless_sint)
        from eq True False y obtain ds k1 r where
          it: "iterLoop hash cfg pw cost 1 [] k = Some (Inr ds, k1)"
          and st: "calculateStats cost ds = Inr r"
          and rec: "f hash cfg pw (cost + 1) (rs @ [r]) k1 = Some (Inr out, k')"
          by (auto split: option.splits sum.splits prod.splits)
        from IH[OF rec] obtain new where
          new: "out = (rs @ [r]) @ new"
            "\<forall>r\<in>set new. CostResult.Iterations r = Config.Iterations cfg
                  \<and> int (length (Durations r)) = sint (Config.Iterations cfg)"
          by blast
        have lds: "int (length ds) = sint (Config.Iterations cfg)"
          using iterLoop_length[OF it I0] .
        have "length ds = nat (sint (Config.Iterations cfg))" using lds by linarith
        then have "CostResult.Iterations r = Config.Iterations cfg"
          using calculateStats_Inr[OF st] I0 by (simp add: of_nat_nat_sint)
        moreover have "int (length (Durations r)) = sint (Config.Iterations cfg)"
          using calculateStats_Inr[OF st] lds by simp
        ultimately have "\<forall>r\<in>set (r # new). CostResult.Iterations r = Config.Iterations cfg
                  \<and> int (length (Durations r)) = sint (Config.Iterations cfg)"
          using new(2) by simp
        moreover have "out = rs @ (r # new)" using new(1) by simp
        ultimately show ?thesis by blast
      qed
    qed
  qed
qed

lemma word_of_int_upto_ascending:
  assumes "- (2 ^ 63) \<le> a" "b < 2 ^ 63"
  shows "sorted_wrt (<s) (map word_of_int [a..b] :: 64 word list)"
proof -
  have "sorted_wrt (\<lambda>x y. (word_of_int x :: 64 word) <s word_of_int y) [a..b]"
  proof (rule sorted_wrt_mono_rel[where P = "(<)"])
    fix x y assume "x \<in> set [a..b]" "y \<in> set [a..b]" "x < y"
    then show "(word_of_int x :: 64 word) <s word_of_int y"
      using assms by (simp add: word_sless_sint sint_word_of_int_64)
  next
    show "sorted_wrt (<) [a..b]" by (simp add: sorted_wrt_upto)
  qed
  then show ?thesis by (simp add: sorted_wrt_map)
qed

lemma cap_nonneg:
  assumes "sint (s :: 64 word) \<le> sint (e :: 64 word)" "sint e - sint s < 2 ^ 63 - 1"
  shows "sint (e - s + 1) = sint e - sint s + 1"
proof -
  have d: "sint (e - s) = sint e - sint s"
    using assms by (intro sint_sub_64) simp_all
  show ?thesis using sint_add_64[of "e - s" 1] d assms by simp
qed

lemma runBenchmark_ok:
  assumes S: "sint (StartCost cfg) \<le> sint (EndCost cfg)"
    and E: "sint (EndCost cfg) < 2 ^ 63 - 1"
    and C: "sint (EndCost cfg) - sint (StartCost cfg) < 2 ^ 63 - 1"
    and I: "1 \<le> sint (Config.Iterations cfg)" "sint (Config.Iterations cfg) < 2 ^ 63 - 1"
    and ok: "\<forall>j c. \<exists>d. hash j pw c = Inr d"
  shows "\<exists>rs k. runBenchmark hash cfg pw = Some (Inr rs, k)
           \<and> map Cost rs = map word_of_int [sint (StartCost cfg)..sint (EndCost cfg)]
           \<and> (\<forall>r\<in>set rs. CostResult.Iterations r = Config.Iterations cfg
                  \<and> int (length (Durations r)) = sint (Config.Iterations cfg))"
proof -
  have "\<not> EndCost cfg - StartCost cfg + 1 <s 0"
    using cap_nonneg[OF S C] S by (simp add: word_sless_sint)
  then have run: "runBenchmark hash cfg pw = costLoop hash cfg pw (StartCost cfg) [] 0"
    by (simp add: runBenchmark_def)
  define L where "L = nat (sint (EndCost cfg) + 1 - sint (StartCost cfg))"
  have L: "int L = sint (EndCost cfg) + 1 - sint (StartCost cfg)" using S by (simp add: L_def)
  from costLoop_ok[where hash = hash and pw = pw and cfg = cfg and L = L
        and cost = "StartCost cfg" and rs = "[]" and k = 0, OF I E L ok]
  show ?thesis unfolding run by simp
qed

lemma runBenchmark_fail:
  assumes S: "sint (StartCost cfg) \<le> sint (EndCost cfg)"
    and C: "sint (EndCost cfg) - sint (StartCost cfg) < 2 ^ 63 - 1"
    and I: "1 \<le> sint (Config.Iterations cfg)" "sint (Config.Iterations cfg) < 2 ^ 63 - 1"
    and j: "j < nat (sint (Config.Iterations cfg))
                  * nat (sint (EndCost cfg) - sint (StartCost cfg) + 1)"
    and before: "\<forall>i<j. \<exists>d. hash i pw (cost_of_call cfg i) = Inr d"
    and fails: "hash j pw (cost_of_call cfg j) = Inl err"
  shows "runBenchmark hash cfg pw = Some (Inl (hash_failure err), Suc j)"
proof -
  have "\<not> EndCost cfg - StartCost cfg + 1 <s 0"
    using cap_nonneg[OF S C] S by (simp add: word_sless_sint)
  then have run: "runBenchmark hash cfg pw = costLoop hash cfg pw (StartCost cfg) [] 0"
    by (simp add: runBenchmark_def)
  define m where "m = nat (sint (Config.Iterations cfg))"
  define L where "L = nat (sint (EndCost cfg) + 1 - sint (StartCost cfg))"
  have L: "int L = sint (EndCost cfg) + 1 - sint (StartCost cfg)" using S by (simp add: L_def)
  have "j < m * L" using j by (simp add: m_def L_def algebra_simps)
  then have jl: "(j - 0) div m < L"
    by (simp add: less_mult_imp_div_less mult.commute)
  have b: "\<forall>i. 0 \<le> i \<and> i < j \<longrightarrow>
             (\<exists>d. hash i pw (StartCost cfg + of_nat ((i - 0) div m)) = Inr d)"
    using before by (simp add: cost_of_call_def m_def)
  have f: "hash j pw (StartCost cfg + of_nat ((j - 0) div m)) = Inl err"
    using fails by (simp add: cost_of_call_def m_def)
  have z: "(0::nat) \<le> j" by simp
  show ?thesis unfolding run
    by (rule costLoop_fail[where hash = hash and pw = pw and cfg = cfg and m = m and L = L
          and cost = "StartCost cfg" and k = 0 and j = j and err = err,
          OF I m_def L z jl b f])
qed

section \<open>The sum of the samples\<close>

lemma foldl_add_word:
  "foldl (\<lambda>total d. total + d) (acc :: 64 word) ds = acc + word_of_int (sum_list (map sint ds))"
  by (induction ds arbitrary: acc) (simp_all add: algebra_simps)

section \<open>Roundings that can be evaluated\<close>

text \<open>
  Integers of at most 53 bits and dyadic numbers are their own rounding; and a number
  whose binade is known is rounded on the grid of that binade.
\<close>

lemma fl_of_int: "\<bar>m\<bar> \<le> 2 ^ 53 \<Longrightarrow> fl (of_int m) = of_int m"
  by (rule fl_f64) (rule is_f64_of_int)

lemma f64_of_int_exact: "\<bar>m\<bar> \<le> 2 ^ 53 \<Longrightarrow> f64_of_int m = of_int m"
  by (simp add: f64_of_int_def fl_of_int)

lemma fl_dyadic: "\<bar>m\<bar> \<le> 2 ^ 53 \<Longrightarrow> - 1074 \<le> e \<Longrightarrow> fl (of_int m * 2 powi e) = of_int m * 2 powi e"
  by (rule fl_f64) (rule is_f64_dyadic)

lemma fl_0 [simp]: "fl 0 = 0" by (simp add: fl_def)

lemma fl_numeral [simp]: "numeral k \<le> (2 :: int) ^ 53 \<Longrightarrow> fl (numeral k) = numeral k"
  using fl_of_int[of "numeral k"] by simp

lemma fl_neg_numeral [simp]:
  "numeral k \<le> (2 :: int) ^ 53 \<Longrightarrow> fl (- numeral k) = - numeral k"
  using fl_of_int[of "- numeral k"] by simp

lemma fl_1 [simp]: "fl 1 = 1" using fl_of_int[of 1] by simp

lemma fl_quarter [simp]: "fl (1 / 4) = 1 / 4" using fl_dyadic[of 1 "- 2"] by simp

lemma fl_three_quarters [simp]: "fl (3 / 4) = 3 / 4" using fl_dyadic[of 3 "- 2"] by simp





section \<open>The percentile against its formula\<close>

lemma sorted_last_Max:
  assumes "sorted (map sint xs)" "xs \<noteq> []"
  shows "sint (xs ! (length xs - 1)) = Max (sint ` set xs)"
proof -
  have l: "xs ! (length xs - 1) = last xs" using assms(2) by (simp add: last_conv_nth)
  have "last (map sint xs) = sint (last xs)" using assms(2) by (simp add: last_map)
  moreover have "\<forall>y\<in>set (map sint xs). y \<le> last (map sint xs)"
  proof
    fix y assume "y \<in> set (map sint xs)"
    then obtain i where i: "i < length (map sint xs)" "y = map sint xs ! i"
      by (auto simp: in_set_conv_nth)
    then have "map sint xs ! i \<le> map sint xs ! (length (map sint xs) - 1)"
      using assms(1) by (intro sorted_nth_mono) auto
    then show "y \<le> last (map sint xs)"
      using i assms(2) by (simp add: last_conv_nth)
  qed
  ultimately have "\<forall>y\<in>sint ` set xs. y \<le> sint (last xs)" by simp
  moreover have "sint (last xs) \<in> sint ` set xs" using assms(2) by simp
  ultimately have "Max (sint ` set xs) = sint (last xs)" by (intro Max_eqI) auto
  then show ?thesis using l by simp
qed

lemma is_f64_2p61: "is_f64 (2 ^ 61)" using is_f64_dyadic[of "2 ^ 53" 8] by simp

lemma rank_bounds_100:
  assumes p: "0 \<le> p" "p \<le> 100" and n: "0 \<le> n" "n \<le> 2 ^ 61"
  shows "0 \<le> f64_mul (f64_div p 100) (f64_of_int n)"
    and "f64_mul (f64_div p 100) (f64_of_int n) \<le> 2 ^ 61"
proof -
  have q0: "0 \<le> f64_div p 100" unfolding f64_div_def using p by (intro fl_nonneg) simp
  have q1: "f64_div p 100 \<le> 1" unfolding f64_div_def
    using p by (intro fl_le_f64 is_f64_1) simp
  have n0: "0 \<le> f64_of_int n" unfolding f64_of_int_def using n by (intro fl_nonneg) simp
  have "real_of_int n \<le> real_of_int (2 ^ 61)" using n(2) by (simp only: of_int_le_iff)
  then have "real_of_int n \<le> 2 ^ 61" by simp
  then have n1: "f64_of_int n \<le> 2 ^ 61" unfolding f64_of_int_def
    by (intro fl_le_f64 is_f64_2p61)
  show "0 \<le> f64_mul (f64_div p 100) (f64_of_int n)"
    unfolding f64_mul_def using q0 n0 by (intro fl_nonneg) simp
  have "f64_div p 100 * f64_of_int n \<le> 1 * 2 ^ 61"
    using q0 q1 n0 n1 by (intro mult_mono) auto
  then show "f64_mul (f64_div p 100) (f64_of_int n) \<le> 2 ^ 61"
    unfolding f64_mul_def by (intro fl_le_f64 is_f64_2p61) simp
qed

lemma calculatePercentile_spec:
  assumes srt: "sorted (map sint xs)" and ne: "xs \<noteq> []" and len: "length xs < 2 ^ 61"
    and p: "0 \<le> p" "p \<le> 100"
  shows "calculatePercentile xs p = Inr (percentile_spec xs p)"
proof (cases "length xs = 1")
  case True
  then show ?thesis by (simp add: calculatePercentile_def percentile_spec_def)
next
  case False
  moreover have "length xs \<noteq> 0" using ne by simp
  ultimately have n2: "2 \<le> length xs" by linarith
  define r where "r = f64_mul (f64_div p 100) (f64_of_int (int (length xs) - 1))"
  define lower where "lower = f64_to_int64 r"
  have n1: "0 \<le> int (length xs) - 1" "int (length xs) - 1 \<le> 2 ^ 61"
    using n2 len ne by simp_all
  have rb: "0 \<le> r" "r \<le> 2 ^ 61" unfolding r_def using rank_bounds_100[OF p n1] by simp_all
  then have lo: "sint lower = \<lfloor>r\<rfloor>"
    unfolding lower_def by (intro f64_to_int64_nonneg) simp_all
  have lo0: "0 \<le> \<lfloor>r\<rfloor>" using rb by simp
  have "\<lfloor>r\<rfloor> \<le> 2 ^ 61" using rb(2) by (simp add: floor_le_iff)
  then have up: "sint (lower + 1) = \<lfloor>r\<rfloor> + 1"
    using lo lo0 sint_add_64[of lower 1] by simp
  have mx: "xs ! (length xs - 1) = word_of_int (Max (sint ` set xs))"
    using sorted_last_Max[OF srt ne, symmetric] by simp
  have mx': "xs ! (length xs - Suc 0) = word_of_int (Max (sint ` set xs))"
    using mx by simp
  show ?thesis
    using False n2 lo0 ne
    by (simp add: calculatePercentile_def percentile_spec_def Let_def r_def[symmetric]
        lower_def[symmetric] lo up mx')
qed

lemma percentile_25_example: "calculatePercentile samples_10_to_40 25 = Inr 17500000"
  by (simp add: calculatePercentile_def samples_10_to_40_def Millisecond_def Let_def
      f64_mul_def f64_div_def f64_of_int_def f64_sub_def f64_add_def f64_to_int64_def trunc_def)

lemma percentile_100_example:
  "calculatePercentile samples_10_to_40 100 = Inr (40 * Millisecond)"
  by (simp add: calculatePercentile_def samples_10_to_40_def Millisecond_def Let_def
      f64_mul_def f64_div_def f64_of_int_def f64_sub_def f64_add_def f64_to_int64_def trunc_def)



section \<open>The standard deviation against its formula\<close>

lemma calculateStdDev_spec: "calculateStdDev ds mean = stddev_spec ds mean"
  by (simp add: calculateStdDev_def stddev_spec_def sum_squares_spec_def Let_def foldl_map)

lemma abs_le_square: "\<bar>d :: int\<bar> \<le> d * d"
proof (cases "d = 0")
  case True then show ?thesis by simp
next
  case False
  then have "1 \<le> \<bar>d\<bar>" by simp
  then have "\<bar>d\<bar> * 1 \<le> \<bar>d\<bar> * \<bar>d\<bar>" by (intro mult_left_mono) simp_all
  then show ?thesis by (simp add: abs_mult_self_eq)
qed

lemma squares_sum_exact:
  fixes xs :: "duration list" and mean :: duration
  assumes "0 \<le> A" "A + (\<Sum>x\<leftarrow>xs. (sint x - sint mean) * (sint x - sint mean)) \<le> 2 ^ 53"
  shows "foldl f64_add (of_int A)
           (map (\<lambda>x. f64_mul (f64_of_int (sint (x - mean))) (f64_of_int (sint (x - mean)))) xs)
         = of_int (A + (\<Sum>x\<leftarrow>xs. (sint x - sint mean) * (sint x - sint mean)))"
  using assms
proof (induction xs arbitrary: A)
  case Nil
  then show ?case by simp
next
  case (Cons x xs)
  define d where "d = sint x - sint mean"
  have rest0: "0 \<le> (\<Sum>x\<leftarrow>xs. (sint x - sint mean) * (sint x - sint mean))"
    by (intro sum_list_nonneg) auto
  have dd: "0 \<le> d * d" by simp
  have dd53: "d * d \<le> 2 ^ 53" using Cons.prems rest0 by (simp add: d_def)
  have d53: "\<bar>d\<bar> \<le> 2 ^ 53" using abs_le_square[of d] dd53 by linarith
  have sd: "sint (x - mean) = d"
    using sint_sub_64[of x mean] d53 by (simp add: d_def)
  have fd: "f64_of_int d = of_int d" using d53 by (rule f64_of_int_exact)
  have "f64_mul (of_int d) (of_int d) = fl (of_int (d * d))" by (simp add: f64_mul_def)
  also have "\<dots> = of_int (d * d)" using dd dd53 by (intro fl_of_int) simp
  finally have sq: "f64_mul (of_int d) (of_int d) = of_int (d * d)" .
  have A1: "A + d * d \<le> 2 ^ 53" using Cons.prems rest0 by (simp add: d_def)
  have "f64_add (of_int A) (of_int (d * d)) = fl (of_int (A + d * d))"
    by (simp add: f64_add_def)
  also have "\<dots> = of_int (A + d * d)" using Cons.prems(1) dd A1 by (intro fl_of_int) simp
  finally have step: "f64_add (of_int A) (of_int (d * d)) = of_int (A + d * d)" .
  define g where "g = (\<lambda>x. f64_mul (f64_of_int (sint (x - mean))) (f64_of_int (sint (x - mean))))"
  have gx: "g x = of_int (d * d)" unfolding g_def sd fd by (rule sq)
  have rest: "foldl f64_add (of_int (A + d * d)) (map g xs)
         = of_int ((A + d * d) + (\<Sum>x\<leftarrow>xs. (sint x - sint mean) * (sint x - sint mean)))"
    unfolding g_def using Cons.prems dd by (intro Cons.IH) (simp_all add: d_def add.assoc)
  have "foldl f64_add (of_int A) (map g (x # xs))
          = foldl f64_add (f64_add (of_int A) (g x)) (map g xs)" by simp
  also have "\<dots> = foldl f64_add (of_int (A + d * d)) (map g xs)"
    by (simp only: gx step)
  also have "\<dots> = of_int ((A + d * d) + (\<Sum>x\<leftarrow>xs. (sint x - sint mean) * (sint x - sint mean)))"
    by (rule rest)
  also have "(A + d * d) + (\<Sum>x\<leftarrow>xs. (sint x - sint mean) * (sint x - sint mean))
          = A + (\<Sum>x\<leftarrow>x # xs. (sint x - sint mean) * (sint x - sint mean))"
    by (simp add: d_def)
  finally show ?case unfolding g_def .
qed

lemma calculateStdDev_exact_sum:
  assumes "2 \<le> length ds" "length ds \<le> 2 ^ 53"
    and "(\<Sum>x\<leftarrow>ds. (sint x - sint mean) * (sint x - sint mean)) \<le> 2 ^ 53"
  shows "calculateStdDev ds mean =
           f64_to_int64 (fl (sqrt (fl (of_int (\<Sum>x\<leftarrow>ds. (sint x - sint mean) * (sint x - sint mean))
                                        / of_int (int (length ds) - 1)))))"
proof -
  have s: "sum_squares_spec ds mean
             = of_int (\<Sum>x\<leftarrow>ds. (sint x - sint mean) * (sint x - sint mean))"
    using squares_sum_exact[where A = 0 and xs = ds and mean = mean] assms(3)
    by (simp add: sum_squares_spec_def)
  have "\<bar>int (length ds) - 1\<bar> \<le> 2 ^ 53" using assms(1,2) by simp
  then have n: "f64_of_int (int (length ds) - 1) = of_int (int (length ds) - 1)"
    by (rule f64_of_int_exact)
  show ?thesis
    using assms(1) by (simp add: calculateStdDev_spec stddev_spec_def s n f64_div_def f64_sqrt_def)
qed

lemma sqrt_1e14: "sqrt 100000000000000 = 10000000"
  by (rule real_sqrt_unique) simp_all

lemma stddev_example: "calculateStdDev samples_10_20_30 (20 * Millisecond) = 10 * Millisecond"
proof -
  have "calculateStdDev samples_10_20_30 (20 * Millisecond) =
           f64_to_int64 (fl (sqrt (fl (of_int (\<Sum>x\<leftarrow>samples_10_20_30.
                (sint x - sint (20 * Millisecond)) * (sint x - sint (20 * Millisecond)))
                                        / of_int (int (length samples_10_20_30) - 1)))))"
    by (rule calculateStdDev_exact_sum) (simp_all add: samples_10_20_30_def Millisecond_def)
  then show ?thesis
    by (simp add: samples_10_20_30_def Millisecond_def sqrt_1e14 f64_to_int64_def trunc_def)
qed

section \<open>Two samples of four days\<close>















lemma calculateStats_fields:
  assumes "calculateStats c ds = Inr r"
  shows "calculateMean (sort_key sint ds) = Inr (Mean r)"
    and "StdDev r = calculateStdDev (sort_key sint ds) (Mean r)"
    and "calculatePercentile (sort_key sint ds) 25 = Inr (P25 r)"
    and "calculatePercentile (sort_key sint ds) 75 = Inr (P75 r)"
    and "calculatePercentile (sort_key sint ds) 95 = Inr (P95 r)"
    and "calculatePercentile (sort_key sint ds) 99 = Inr (P99 r)"
  using assms
  by (auto simp: calculateStats_def Let_def bind_res_def split: sum.splits)


section \<open>Signs of the mean and of the standard deviation\<close>










section \<open>The reducer on a heap\<close>

lemma store_elems_fresh:
  "length xs = n \<Longrightarrow>
   store_elems (h @ [ys]) \<lparr>array = length h, offset = 0, len = n, cap = n\<rparr> xs
     = h @ [xs @ drop n ys]"
  by (simp add: store_elems_def)

lemma elems_fresh:
  "length xs = n \<Longrightarrow> elems (h @ [xs]) \<lparr>array = length h, offset = 0, len = n, cap = n\<rparr> = xs"
  by (simp add: elems_def)

lemma elems_older: "array s < length h \<Longrightarrow> elems (h @ [xs]) s = elems h s"
  by (simp add: elems_def nth_append)

lemma length_elems: "slice_ok h s \<Longrightarrow> length (elems h s) = len s"
  by (auto simp: slice_ok_def elems_def)

lemma calculateStats_heap_final:
  assumes "slice_ok h s"
  shows "snd (calculateStats_heap cost s h) = h @ [sort_key sint (elems h s)]"
proof -
  have a: "array s < length h" using assms by (simp add: slice_ok_def)
  have l: "length (elems h s) = len s" using assms by (rule length_elems)
  have h2: "copy_slice (h @ [replicate (len s) 0])
              \<lparr>array = length h, offset = 0, len = len s, cap = len s\<rparr> s = h @ [elems h s]"
    using l by (simp add: copy_slice_def elems_older[OF a] store_elems_fresh)
  have h3: "sort_slice (h @ [elems h s])
              \<lparr>array = length h, offset = 0, len = len s, cap = len s\<rparr>
            = h @ [sort_key sint (elems h s)]"
    using l by (simp add: sort_slice_def elems_fresh store_elems_fresh)
  show ?thesis
    by (simp add: calculateStats_heap_def make_slice_def Let_def h2 h3)
qed

lemma calculateStats_heap_value:
  assumes "slice_ok h s"
  shows "fst (calculateStats_heap cost s h) =
           (case calculateStats cost (elems h s) of
              Inl a \<Rightarrow> Inl a
            | Inr r \<Rightarrow> Inr \<lparr>Cost = Cost r, Durations = s, Mean = Mean r, StdDev = StdDev r,
                            P25 = P25 r, P75 = P75 r, P95 = P95 r, P99 = P99 r,
                            Iterations = CostResult.Iterations r\<rparr>)"
proof -
  have a: "array s < length h" using assms by (simp add: slice_ok_def)
  have l: "length (elems h s) = len s" using assms by (rule length_elems)
  have h2: "copy_slice (h @ [replicate (len s) 0])
              \<lparr>array = length h, offset = 0, len = len s, cap = len s\<rparr> s = h @ [elems h s]"
    using l by (simp add: copy_slice_def elems_older[OF a] store_elems_fresh)
  have h3: "sort_slice (h @ [elems h s])
              \<lparr>array = length h, offset = 0, len = len s, cap = len s\<rparr>
            = h @ [sort_key sint (elems h s)]"
    using l by (simp add: sort_slice_def elems_fresh store_elems_fresh)
  have e: "elems (h @ [sort_key sint (elems h s)])
              \<lparr>array = length h, offset = 0, len = len s, cap = len s\<rparr>
            = sort_key sint (elems h s)"
    using l by (intro elems_fresh) simp
  show ?thesis
    by (simp add: calculateStats_heap_def calculateStats_def make_slice_def Let_def h2 h3 e l
        bind_res_def split: sum.splits)
qed

section \<open>Properties\<close>

text \<open>
  C10. For the empty sample sequence the percentile computation returns the zero
  duration for every percentile: it neither panics nor reads the slice.
\<close>

theorem calculatePercentile_empty: "calculatePercentile [] p = Inr 0"
  by (simp add: calculatePercentile_def)

text \<open>
  C1, as the code has it. When a call of the hashing primitive fails, all calls before
  it having succeeded, \<open>log.Fatalf\<close> ends the process at that call: \<open>runBenchmark\<close>
  returns nothing, no call follows, and \<open>main\<close> prints no report, so no summary is
  returned or reported, whether of the cost level in progress, of a later one or of
  one completed before.
\<close>

theorem hash_failure_ends_the_run:
  assumes "sint (StartCost cfg) \<le> sint (EndCost cfg)"
    and "sint (EndCost cfg) - sint (StartCost cfg) < 2 ^ 63 - 1"
    and "1 \<le> sint (Config.Iterations cfg)"
    and "sint (Config.Iterations cfg) < 2 ^ 63 - 1"
    and "j < nat (sint (Config.Iterations cfg))
               * nat (sint (EndCost cfg) - sint (StartCost cfg) + 1)"
    and "\<forall>i<j. \<exists>elapsed. hash i password (cost_of_call cfg i) = Inr elapsed"
    and "hash j password (cost_of_call cfg j) = Inl err"
  shows "runBenchmark hash cfg password = Some (Inl (hash_failure err), Suc j)
           \<and> main_run hash cfg password = Some (Exited (hash_failure err))"
proof -
  have "runBenchmark hash cfg password = Some (Inl (hash_failure err), Suc j)"
    using assms by (rule runBenchmark_fail)
  then show ?thesis by (simp add: main_run_def)
qed

theorem hash_failure_ends_the_run_witness:
  "runBenchmark failing_hash cfg_4_6 [] = Some (Inl (hash_failure ''boom''), 6)
     \<and> main_run failing_hash cfg_4_6 [] = Some (Exited (hash_failure ''boom''))"
  using hash_failure_ends_the_run[of cfg_4_6 5 failing_hash "[]" "''boom''"]
  by (simp add: cfg_4_6_def failing_hash_def cost_of_call_def)

text \<open>
  C1 as stated fails: with the sixth call failing, the four calls of the cost levels 4
  and 5 succeed, and yet no summary is returned and none is reported.
\<close>

theorem completed_summaries_are_lost:
  "failing_hash 0 [] 4 = Inr Millisecond \<and> failing_hash 1 [] 4 = Inr Millisecond
     \<and> failing_hash 2 [] 5 = Inr Millisecond \<and> failing_hash 3 [] 5 = Inr Millisecond
     \<and> \<not> (\<exists>results calls. runBenchmark failing_hash cfg_4_6 [] = Some (Inr results, calls))
     \<and> \<not> (\<exists>rows. main_run failing_hash cfg_4_6 [] = Some (Reported rows))"
proof -
  have "runBenchmark failing_hash cfg_4_6 [] = Some (Inl (hash_failure ''boom''), Suc 5)"
    by (rule runBenchmark_fail) (simp_all add: cfg_4_6_def failing_hash_def cost_of_call_def)
  then show ?thesis by (simp add: main_run_def failing_hash_def)
qed

text \<open>
  C3. For a non-empty sample sequence the mean is the sum of the samples, added up in
  \<open>int64\<close>, divided by their number last, by the truncating integer division; no
  floating-point number is involved. Where the samples are non-negative and their sum
  fits \<open>int64\<close>, it is the integer quotient of the true sum. For 10ms, 20ms and 30ms
  it is exactly 20ms.
\<close>

theorem mean_is_integer_quotient:
  assumes "ds \<noteq> []" and "length ds < 2 ^ 63"
  shows "calculateMean ds =
           Inr (word_of_int (signed_take_bit 63 (sum_list (map sint ds)) sdiv int (length ds)))
         \<and> ((\<forall>d\<in>set ds. 0 \<le> sint d) \<and> sum_list (map sint ds) < 2 ^ 63 \<longrightarrow>
              (\<exists>m. calculateMean ds = Inr m
                   \<and> sint m = sum_list (map sint ds) div int (length ds)))
         \<and> calculateMean [10 * Millisecond, 20 * Millisecond, 30 * Millisecond]
              = Inr (20 * Millisecond)"
proof -
  define total where "total = sum_list (map sint ds)"
  have n0: "(of_nat (length ds) :: 64 word) \<noteq> 0"
    using assms by (intro of_nat_neq_0) (simp, rule less_trans, assumption, simp)
  have sn: "sint (of_nat (length ds) :: 64 word) = int (length ds)"
    using assms(2) by (rule sint_of_nat_64)
  have st: "sint (word_of_int total :: 64 word) = signed_take_bit 63 total"
    by (simp add: sint_sbintrunc')
  have mean: "calculateMean ds =
           Inr (word_of_int (signed_take_bit 63 total sdiv int (length ds)))"
    using n0 by (simp add: calculateMean_def Let_def foldl_add_word int64_div_def sn
        st[unfolded total_def] total_def)
  have nonneg: "(\<forall>d\<in>set ds. 0 \<le> sint d) \<and> total < 2 ^ 63 \<longrightarrow>
              (\<exists>m. calculateMean ds = Inr m \<and> sint m = total div int (length ds))"
  proof
    assume a: "(\<forall>d\<in>set ds. 0 \<le> sint d) \<and> total < 2 ^ 63"
    then have t0: "0 \<le> total" unfolding total_def by (intro sum_list_nonneg) auto
    have fit: "signed_take_bit 63 total = total"
      using t0 a by (intro signed_take_bit_int_eq_self) simp_all
    have len: "0 < int (length ds)" using assms(1) by simp
    have q: "total sdiv int (length ds) = total div int (length ds)"
      using t0 len by (simp add: signed_divide_int_def sgn_if)
    have q0: "0 \<le> total div int (length ds)" using t0 len by (simp add: pos_imp_zdiv_nonneg_iff)
    have "total div int (length ds) \<le> total"
      using zdiv_mono2[of total 1 "int (length ds)"] t0 len by simp
    then have q1: "total div int (length ds) < 2 ^ 63" using a by linarith
    have "sint (word_of_int (total div int (length ds)) :: 64 word) = total div int (length ds)"
      using q0 q1 by (intro sint_word_of_int_64) simp_all
    then show "\<exists>m. calculateMean ds = Inr m \<and> sint m = total div int (length ds)"
      using mean fit q by simp
  qed
  have ex: "calculateMean [10 * Millisecond, 20 * Millisecond, 30 * Millisecond]
              = Inr (20 * Millisecond)"
    by (simp add: calculateMean_def Let_def int64_div_def Millisecond_def signed_divide_int_def)
  show ?thesis using mean nonneg ex unfolding total_def by blast
qed

theorem mean_is_integer_quotient_witness:
  "calculateMean [1, 2, 4] = Inr 2
   \<and> (\<exists>m. calculateMean [1, 2, 4] = Inr m \<and> sint m = 7 div 3)"
proof -
  note t = mean_is_integer_quotient[of "[1, 2, 4]"]
  have "calculateMean [1, 2, 4 :: 64 word] =
           Inr (word_of_int (signed_take_bit 63 (sum_list (map sint [1, 2, 4 :: 64 word]))
                  sdiv int (length [1, 2, 4 :: 64 word])))"
    using t by simp
  then have a: "calculateMean [1, 2, 4] = Inr 2" by (simp add: signed_divide_int_def)
  have "\<exists>m. calculateMean [1, 2, 4] = Inr m
            \<and> sint m = sum_list (map sint [1, 2, 4 :: 64 word]) div int (length [1, 2, 4 :: 64 word])"
    using t[THEN conjunct2, THEN conjunct1] by simp
  then have b: "\<exists>m. calculateMean [1, 2, 4] = Inr m \<and> sint m = 7 div 3" by simp
  show ?thesis using a b by (rule conjI)
qed

text \<open>
  C5. The recommendation depends on the mean alone and puts it into exactly one of five
  bands with strict upper bounds, tried in ascending order: below 100ms, below 250ms,
  below 500ms, below 1s, and 1s or more. The five sentences of the report differ, a
  mean of exactly 100ms falls into the second band and one of exactly 250ms into the
  third.
\<close>

theorem recommendation_bands:
  "recommendation mean = band_text (band_of_mean (sint mean))
     \<and> distinct (map band_text [Fast, Balanced, Acceptable, Slow, TooSlow])
     \<and> band_of_mean (sint (100 * Millisecond)) = Balanced
     \<and> band_of_mean (sint (250 * Millisecond)) = Acceptable
     \<and> band_of_mean (sint (1 * Second)) = TooSlow"
proof -
  have "recommendation mean = band_text (band_of_mean (sint mean))"
    by (simp add: recommendation_def band_of_mean_def Millisecond_def Second_def
        word_sless_sint)
  moreover have "distinct (map band_text [Fast, Balanced, Acceptable, Slow, TooSlow])"
    by simp
  moreover have "band_of_mean (sint (100 * Millisecond)) = Balanced"
    "band_of_mean (sint (250 * Millisecond)) = Acceptable"
    "band_of_mean (sint (1 * Second)) = TooSlow"
    by (simp_all add: band_of_mean_def Millisecond_def Second_def)
  ultimately show ?thesis by blast
qed

text \<open>
  C6. When every call of the hashing primitive succeeds, the sweep returns exactly one
  summary for each cost from \<open>StartCost\<close> to \<open>EndCost\<close>, in strictly ascending
  order of cost, so \<open>EndCost - StartCost + 1\<close> of them. The configuration is one whose
  numbers stay clear of the ends of the 64-bit range (the costs that \<open>parseFlags\<close>
  lets through lie between 4 and 31) and has at least one iteration.
\<close>

theorem sweep_one_summary_per_cost:
  assumes "sint (StartCost cfg) \<le> sint (EndCost cfg)"
    and "sint (EndCost cfg) < 2 ^ 63 - 1"
    and "sint (EndCost cfg) - sint (StartCost cfg) < 2 ^ 63 - 1"
    and "1 \<le> sint (Config.Iterations cfg)"
    and "sint (Config.Iterations cfg) < 2 ^ 63 - 1"
    and "\<forall>k cost. \<exists>elapsed. hash k password cost = Inr elapsed"
  shows "\<exists>results calls. runBenchmark hash cfg password = Some (Inr results, calls)
           \<and> map Cost results = map word_of_int [sint (StartCost cfg)..sint (EndCost cfg)]
           \<and> sorted_wrt (<s) (map Cost results)
           \<and> int (length results) = sint (EndCost cfg) - sint (StartCost cfg) + 1"
proof -
  from runBenchmark_ok[OF assms(1,2,3,4,5), of hash password] assms(6)
  obtain rs k where run: "runBenchmark hash cfg password = Some (Inr rs, k)"
    and costs: "map Cost rs = map word_of_int [sint (StartCost cfg)..sint (EndCost cfg)]"
    by blast
  have "sorted_wrt (<s) (map Cost rs)"
    unfolding costs
    using sint_bounds_64[of "StartCost cfg"] sint_bounds_64[of "EndCost cfg"]
    by (intro word_of_int_upto_ascending) simp_all
  moreover have "length rs = length [sint (StartCost cfg)..sint (EndCost cfg)]"
    using arg_cong[OF costs, of length] by simp
  then have "int (length rs) = sint (EndCost cfg) - sint (StartCost cfg) + 1"
    using assms(1) by simp
  ultimately show ?thesis using run costs by blast
qed

theorem sweep_one_summary_per_cost_witness:
  "\<exists>results calls. runBenchmark steady_hash cfg_4_6 [] = Some (Inr results, calls)
      \<and> map Cost results = [4, 5, 6] \<and> sorted_wrt (<s) (map Cost results)
      \<and> length results = 3"
proof -
  have "\<exists>results calls. runBenchmark steady_hash cfg_4_6 [] = Some (Inr results, calls)
           \<and> map Cost results = map word_of_int [sint (StartCost cfg_4_6)..sint (EndCost cfg_4_6)]
           \<and> sorted_wrt (<s) (map Cost results)
           \<and> int (length results) = sint (EndCost cfg_4_6) - sint (StartCost cfg_4_6) + 1"
    by (rule sweep_one_summary_per_cost) (simp_all add: cfg_4_6_def steady_hash_def)
  then show ?thesis by (simp add: cfg_4_6_def upto_rec1)
qed

text \<open>
  C7. Whenever a sweep returns its results, every summary in them has \<open>Iterations\<close>
  equal to the configured number of iterations, and holds exactly that many samples.
\<close>

theorem sample_count_is_iterations:
  assumes "runBenchmark hash cfg password = Some (Inr results, calls)"
    and "r \<in> set results"
  shows "CostResult.Iterations r = Config.Iterations cfg
           \<and> int (length (Durations r)) = sint (Config.Iterations cfg)"
proof -
  have "costLoop hash cfg password (StartCost cfg) [] 0 = Some (Inr results, calls)"
    using assms(1) by (simp add: runBenchmark_def split: if_splits)
  from costLoop_results[OF this] assms(2) show ?thesis by simp
qed

theorem sample_count_is_iterations_witness:
  "\<exists>results calls. runBenchmark steady_hash cfg_4_6 [] = Some (Inr results, calls)
      \<and> results \<noteq> []
      \<and> map CostResult.Iterations results = replicate (length results) 2
      \<and> map (\<lambda>r. length (Durations r)) results = replicate (length results) 2"
proof -
  obtain rs k where run: "runBenchmark steady_hash cfg_4_6 [] = Some (Inr rs, k)"
    and costs: "map Cost rs = map word_of_int [sint (StartCost cfg_4_6)..sint (EndCost cfg_4_6)]"
    using runBenchmark_ok[of cfg_4_6 steady_hash "[]"]
    by (auto simp: cfg_4_6_def steady_hash_def)
  have ne: "rs \<noteq> []" using costs by (auto simp: cfg_4_6_def upto_rec1)
  have each: "\<And>r. r \<in> set rs \<Longrightarrow> CostResult.Iterations r = 2 \<and> length (Durations r) = 2"
    using sample_count_is_iterations[OF run] by (simp add: cfg_4_6_def)
  have "map CostResult.Iterations rs = replicate (length rs) 2"
    using each by (simp add: map_replicate_const[symmetric] cong: map_cong)
  moreover have "map (\<lambda>r. length (Durations r)) rs = replicate (length rs) 2"
    using each by (simp add: map_replicate_const[symmetric] cong: map_cong)
  ultimately show ?thesis using run ne by blast
qed

text \<open>
  C2. For a sorted sample sequence (fewer than \<open>2 ^ 61\<close> samples) and a percentile in
  \<open>[0, 100]\<close>, \<open>calculatePercentile\<close> returns the value of the formula of the
  specification, \<open>percentile_spec\<close>: the rank \<open>r = (p / 100) * (n - 1)\<close>, \<open>lo = floor r\<close>,
  \<open>hi = lo + 1\<close>, \<open>w = r - lo\<close>, the largest sample when \<open>hi \<ge> n\<close>, and otherwise
  \<open>sorted[lo] * (1 - w) + sorted[hi] * w\<close>, each operation rounded to \<open>float64\<close> and the
  result cut to whole nanoseconds. A single sample is returned for every percentile.
  For 10ms, 20ms, 30ms and 40ms the 25th percentile is 17.5ms and the 100th is 40ms.
\<close>

theorem percentile_interpolates:
  assumes "sorted (map sint xs)" and "xs \<noteq> []" and "length xs < 2 ^ 61"
    and "0 \<le> p" and "p \<le> 100"
  shows "calculatePercentile xs p = Inr (percentile_spec xs p)
         \<and> (length xs = 1 \<longrightarrow> (\<forall>q. calculatePercentile xs q = Inr (xs ! 0)))
         \<and> calculatePercentile samples_10_to_40 25 = Inr 17500000
         \<and> calculatePercentile samples_10_to_40 100 = Inr (40 * Millisecond)"
proof -
  have a: "calculatePercentile xs p = Inr (percentile_spec xs p)"
    using assms by (rule calculatePercentile_spec)
  have b: "length xs = 1 \<longrightarrow> (\<forall>q. calculatePercentile xs q = Inr (xs ! 0))"
    by (simp add: calculatePercentile_def)
  show ?thesis using a b percentile_25_example percentile_100_example by blast
qed

theorem percentile_interpolates_witness:
  "percentile_spec samples_10_to_40 25 = 17500000
   \<and> percentile_spec samples_10_to_40 100 = 40 * Millisecond
   \<and> calculatePercentile [7 * Millisecond] 1000 = Inr (7 * Millisecond)"
proof -
  have "calculatePercentile samples_10_to_40 25 = Inr (percentile_spec samples_10_to_40 25)"
    using percentile_interpolates[of samples_10_to_40 25, THEN conjunct1]
    by (simp add: samples_10_to_40_def Millisecond_def)
  then have a: "percentile_spec samples_10_to_40 25 = 17500000"
    using percentile_25_example by simp
  have "calculatePercentile samples_10_to_40 100 = Inr (percentile_spec samples_10_to_40 100)"
    using percentile_interpolates[of samples_10_to_40 100, THEN conjunct1]
    by (simp add: samples_10_to_40_def Millisecond_def)
  then have b: "percentile_spec samples_10_to_40 100 = 40 * Millisecond"
    using percentile_100_example by simp
  have "\<forall>q. calculatePercentile [7 * Millisecond] q = Inr ([7 * Millisecond] ! 0)"
    using percentile_interpolates[of "[7 * Millisecond]" 50, THEN conjunct2, THEN conjunct1]
    by simp
  then have c: "calculatePercentile [7 * Millisecond] 1000 = Inr (7 * Millisecond)" by simp
  show ?thesis using a b c by simp
qed

text \<open>
  C4. \<open>calculateStdDev\<close> is the formula of the specification, \<open>stddev_spec\<close>: zero below two
  samples, and otherwise the square root of the sum of the squared deviations from the
  mean over \<open>n - 1\<close>, computed in \<open>float64\<close> and cut to whole nanoseconds. Where the sum
  of the squares is at most \<open>2 ^ 53\<close> it is added up without any rounding, so that the
  result is the rounded square root of the rounded quotient of the true sum. The
  summary of 10ms, 20ms and 30ms has the mean 20ms and the standard deviation 10ms.
\<close>

theorem stddev_is_bessel_corrected:
  "calculateStdDev ds mean = stddev_spec ds mean
   \<and> (length ds < 2 \<longrightarrow> calculateStdDev ds mean = 0)
   \<and> (2 \<le> length ds \<and> length ds \<le> 2 ^ 53
        \<and> (\<Sum>x\<leftarrow>ds. (sint x - sint mean) * (sint x - sint mean)) \<le> 2 ^ 53 \<longrightarrow>
      calculateStdDev ds mean =
        f64_to_int64 (fl (sqrt (fl (of_int (\<Sum>x\<leftarrow>ds. (sint x - sint mean) * (sint x - sint mean))
                                     / of_int (int (length ds) - 1))))))
   \<and> (\<exists>r. calculateStats c samples_10_20_30 = Inr r
           \<and> Mean r = 20 * Millisecond \<and> StdDev r = 10 * Millisecond)"
proof -
  have a: "calculateStdDev ds mean = stddev_spec ds mean" by (rule calculateStdDev_spec)
  have b: "length ds < 2 \<longrightarrow> calculateStdDev ds mean = 0"
    by (simp add: calculateStdDev_def)
  have c: "2 \<le> length ds \<and> length ds \<le> 2 ^ 53
        \<and> (\<Sum>x\<leftarrow>ds. (sint x - sint mean) * (sint x - sint mean)) \<le> 2 ^ 53 \<longrightarrow>
      calculateStdDev ds mean =
        f64_to_int64 (fl (sqrt (fl (of_int (\<Sum>x\<leftarrow>ds. (sint x - sint mean) * (sint x - sint mean))
                                     / of_int (int (length ds) - 1)))))"
    using calculateStdDev_exact_sum[of ds mean] by blast
  obtain r where r: "calculateStats c samples_10_20_30 = Inr r"
    using calculateStats_ok[of samples_10_20_30 c] by (auto simp: samples_10_20_30_def)
  have s: "sort_key sint samples_10_20_30 = samples_10_20_30"
    by (simp add: samples_10_20_30_def Millisecond_def)
  have "calculateMean samples_10_20_30 = Inr (20 * Millisecond)"
    by (simp add: calculateMean_def Let_def int64_div_def samples_10_20_30_def Millisecond_def
        signed_divide_int_def)
  then have m: "Mean r = 20 * Millisecond"
    using calculateStats_fields(1)[OF r] by (simp add: s)
  have "StdDev r = 10 * Millisecond"
    using calculateStats_fields(2)[OF r] stddev_example by (simp add: s m)
  then have d: "\<exists>r. calculateStats c samples_10_20_30 = Inr r
           \<and> Mean r = 20 * Millisecond \<and> StdDev r = 10 * Millisecond"
    using r m by blast
  show ?thesis using a b c d by blast
qed

theorem stddev_is_bessel_corrected_witness:
  "calculateStdDev [Millisecond] Millisecond = 0
   \<and> calculateStdDev samples_10_20_30 (20 * Millisecond)
       = f64_to_int64 (fl (sqrt (fl (200000000000000 / 2))))"
proof -
  have a: "calculateStdDev [Millisecond] Millisecond = 0"
    using stddev_is_bessel_corrected[of "[Millisecond]" Millisecond 10,
        THEN conjunct2, THEN conjunct1]
    by simp
  have b: "calculateStdDev samples_10_20_30 (20 * Millisecond)
       = f64_to_int64 (fl (sqrt (fl (200000000000000 / 2))))"
    using stddev_is_bessel_corrected[of samples_10_20_30 "20 * Millisecond" 10,
        THEN conjunct2, THEN conjunct2, THEN conjunct1]
    by (simp add: samples_10_20_30_def Millisecond_def)
  show ?thesis using a b by (rule conjI)
qed




text \<open>
  C9. \<open>calculateStats\<close> leaves the memory of its caller as it was: the heap it returns is
  the heap it was given followed by one new array, which holds the sorted copy; so the
  samples of the caller, read through the caller's slice, are the same in the same
  order, as is every other array. The summary holds the caller's slice itself.
\<close>

theorem calculateStats_keeps_the_samples:
  assumes "slice_ok h durations"
  shows "take (length h) (snd (calculateStats_heap cost durations h)) = h
         \<and> elems (snd (calculateStats_heap cost durations h)) durations = elems h durations
         \<and> (\<forall>r. fst (calculateStats_heap cost durations h) = Inr r \<longrightarrow> Durations r = durations)"
proof -
  have a: "array durations < length h" using assms by (simp add: slice_ok_def)
  have f: "snd (calculateStats_heap cost durations h) = h @ [sort_key sint (elems h durations)]"
    using assms by (rule calculateStats_heap_final)
  have "\<forall>r. fst (calculateStats_heap cost durations h) = Inr r \<longrightarrow> Durations r = durations"
    unfolding calculateStats_heap_value[OF assms] by (auto split: sum.splits)
  then show ?thesis unfolding f using elems_older[OF a] by simp
qed

theorem calculateStats_keeps_the_samples_witness:
  "slice_ok heap_3_1_2 whole_slice
   \<and> elems (snd (calculateStats_heap 10 whole_slice heap_3_1_2)) whole_slice
        = [3 * Millisecond, 1 * Millisecond, 2 * Millisecond]
   \<and> take 1 (snd (calculateStats_heap 10 whole_slice heap_3_1_2)) = heap_3_1_2
   \<and> (\<exists>r. fst (calculateStats_heap 10 whole_slice heap_3_1_2) = Inr r
           \<and> Durations r = whole_slice)"
proof -
  have ok: "slice_ok heap_3_1_2 whole_slice"
    by (simp add: slice_ok_def heap_3_1_2_def whole_slice_def)
  have e: "elems heap_3_1_2 whole_slice = [3 * Millisecond, 1 * Millisecond, 2 * Millisecond]"
    by (simp add: elems_def heap_3_1_2_def whole_slice_def)
  have l: "length heap_3_1_2 = 1" by (simp add: heap_3_1_2_def)
  note t = calculateStats_keeps_the_samples[OF ok, of 10]
  obtain v where "calculateStats 10 (elems heap_3_1_2 whole_slice) = Inr v"
    using calculateStats_ok[of "elems heap_3_1_2 whole_slice" 10] by (auto simp: e)
  then obtain r where r: "fst (calculateStats_heap 10 whole_slice heap_3_1_2) = Inr r"
    using calculateStats_heap_value[OF ok, of 10] by simp
  then have "Durations r = whole_slice" using t by blast
  then have "\<exists>r. fst (calculateStats_heap 10 whole_slice heap_3_1_2) = Inr r
           \<and> Durations r = whole_slice"
    using r by blast
  then show ?thesis using t ok e l by simp
qed

end
